theory Spec2Isabelle
  imports Complex_Main "HOL-Library.Word" "HOL-Library.List_Lexorder" "HOL-Library.Log_Nat"
begin

unbundle bit_operations_syntax

section \<open>Bytes, strings, numbers and errors\<close>

text \<open>
  A Node \<open>Buffer\<close> is a list of bytes. A JavaScript string is a list of UTF-16 code
  units. Every \<open>throw\<close> of the sources, and every exception the runtime raises inside
  them, is a value of type \<open>error\<close>; a function that can throw returns \<open>error + 'a\<close>.
\<close>

type_synonym byte = "8 word"
type_synonym buffer = "byte list"
type_synonym jsstring = "16 word list"

datatype error =
    Truncated                \<comment> \<open>"Varint decode out of bounds", "Buffer too short ...", "Truncated ..."\<close>
  | VarintOverflow           \<comment> \<open>"Varint too long for 32-bit integer"\<close>
  | NegativeVarint           \<comment> \<open>"Varint.encode only supports unsigned integers"\<close>
  | UnknownMode byte         \<comment> \<open>"Unknown AdaptiveStringCodec mode: ..."\<close>
  | BitmapMismatch nat nat   \<comment> \<open>"non-null values mismatch: expected ..., got ..."\<close>
  | EnumStringTooLong        \<comment> \<open>"Enum string too long (max 254 bytes)"\<close>
  | EnumUnderflow            \<comment> \<open>"Enum decode underflow: ..."\<close>
  | DictIndexOutOfRange      \<comment> \<open>"Invalid dictionary index: ..."\<close>
  | EmptyBatch               \<comment> \<open>"Cannot compress empty dataset"\<close>
  | NoCodec                  \<comment> \<open>"No codec registered for field type: ..."\<close>
  | RoundTripFailed jsstring \<comment> \<open>"Round-trip integrity check failed for field ..."\<close>
  | InvalidBuffer            \<comment> \<open>"Invalid SAJC buffer"\<close>
  | InvalidMagic             \<comment> \<open>"Invalid SAJC magic"\<close>
  | RangeError               \<comment> \<open>raised by the runtime: read or write out of range, BigInt(NaN), invalid Date\<close>
  | TypeError                \<comment> \<open>raised by the runtime: a value of the wrong type\<close>
  | NonTermination           \<comment> \<open>a loop that never returns\<close>

fun bindE :: "error + 'a \<Rightarrow> ('a \<Rightarrow> error + 'b) \<Rightarrow> error + 'b" where
  "bindE (Inl e) f = Inl e"
| "bindE (Inr x) f = f x"

text \<open>A \<open>for\<close> loop that calls a throwing function on every element, in order.\<close>

fun mapE :: "('a \<Rightarrow> error + 'b) \<Rightarrow> 'a list \<Rightarrow> error + 'b list" where
  "mapE f [] = Inr []"
| "mapE f (x # xs) = bindE (f x) (\<lambda>y. bindE (mapE f xs) (\<lambda>ys. Inr (y # ys)))"

text \<open>Fixed-width little-endian integers, as \<open>Buffer.writeUInt32LE\<close> and its siblings lay them out.\<close>

fun le_bytes :: "nat \<Rightarrow> nat \<Rightarrow> buffer" where
  "le_bytes 0 v = []"
| "le_bytes (Suc k) v = of_nat (v mod 256) # le_bytes k (v div 256)"

fun le_value :: "buffer \<Rightarrow> nat" where
  "le_value [] = 0"
| "le_value (b # bs) = unat b + 256 * le_value bs"

definition writeUInt32LE :: "nat \<Rightarrow> error + buffer" where
  "writeUInt32LE v = (if v < 2 ^ 32 then Inr (le_bytes 4 v) else Inl RangeError)"

definition readUInt32LE :: "buffer \<Rightarrow> nat \<Rightarrow> error + nat" where
  "readUInt32LE buf offset =
     (if offset + 4 \<le> length buf then Inr (le_value (take 4 (drop offset buf))) else Inl RangeError)"

definition writeUInt16LE :: "nat \<Rightarrow> error + buffer" where
  "writeUInt16LE v = (if v < 2 ^ 16 then Inr (le_bytes 2 v) else Inl RangeError)"

definition readUInt16LE :: "buffer \<Rightarrow> nat \<Rightarrow> error + nat" where
  "readUInt16LE buf offset =
     (if offset + 2 \<le> length buf then Inr (le_value (take 2 (drop offset buf))) else Inl RangeError)"

definition writeBigInt64LE :: "int \<Rightarrow> error + buffer" where
  "writeBigInt64LE v =
     (if - (2 ^ 63) \<le> v \<and> v < 2 ^ 63 then Inr (le_bytes 8 (nat (v mod 2 ^ 64))) else Inl RangeError)"

definition readBigInt64LE :: "buffer \<Rightarrow> nat \<Rightarrow> error + int" where
  "readBigInt64LE buf offset =
     (if offset + 8 \<le> length buf
      then (let u = int (le_value (take 8 (drop offset buf)))
            in Inr (if u < 2 ^ 63 then u else u - 2 ^ 64))
      else Inl RangeError)"

section \<open>Varint (src/unnamed/part_000)\<close>

text \<open>
  \<open>Varint.encode\<close>: the \<open>do ... while\<close> loop on a 32-bit unsigned value (\<open>&\<close> and
  \<open>>>>\<close> work on the low 32 bits of the number).
\<close>

function Varint_encode_loop :: "32 word \<Rightarrow> buffer \<Rightarrow> buffer" where
  "Varint_encode_loop val bytes =
     (let byte = val AND 0x7f;
          val' = drop_bit 7 val;
          byte' = (if val' \<noteq> 0 then byte OR 0x80 else byte);
          bytes' = bytes @ [ucast byte']
      in if val' \<noteq> 0 then Varint_encode_loop val' bytes' else bytes')"
  by pat_completeness auto
termination
proof (relation "measure (\<lambda>(val, bytes). unat val)")
  show "wf (measure (\<lambda>(val, bytes). unat val))" by simp
next
  fix val :: "32 word" and bytes x xa xb xc
  assume "xa = drop_bit 7 val" and "xa \<noteq> 0"
  then have "val \<noteq> 0" by auto
  then have "0 < unat val" by (simp add: unat_gt_0)
  then have "unat val div 2 ^ 7 < unat val" by simp
  then have "unat (drop_bit 7 val) < unat val" by (simp add: drop_bit_eq_div unat_div)
  with \<open>xa = drop_bit 7 val\<close> show "((xa, xc), val, bytes) \<in> measure (\<lambda>(val, bytes). unat val)"
    by simp
qed

definition Varint_encode :: "int \<Rightarrow> error + buffer" where
  "Varint_encode v =
     (if v < 0 then Inl NegativeVarint else Inr (Varint_encode_loop (word_of_int v) []))"

text \<open>
  \<open>Varint.decode\<close>: \<open>value\<close> is a 32-bit integer, and \<open><<\<close> takes its shift count
  modulo 32; \<open>value >>> 0\<close> reads the result as unsigned.
\<close>

function Varint_decode_loop ::
  "buffer \<Rightarrow> nat \<Rightarrow> 32 word \<Rightarrow> nat \<Rightarrow> nat \<Rightarrow> error + (nat \<times> nat)" where
  "Varint_decode_loop buffer offset val shift bytesRead =
     (if offset + bytesRead \<ge> length buffer then Inl Truncated
      else let byte = buffer ! (offset + bytesRead);
               bytesRead' = bytesRead + 1;
               val' = val OR push_bit (shift mod 32) (ucast (byte AND 0x7f))
           in if byte AND 0x80 = 0 then Inr (unat val', bytesRead')
              else if shift + 7 > 35 then Inl VarintOverflow
              else Varint_decode_loop buffer offset val' (shift + 7) bytesRead')"
  by pat_completeness auto
termination
  by (relation "measure (\<lambda>(buffer, offset, val, shift, bytesRead). length buffer - (offset + bytesRead))")
     auto

definition Varint_decode :: "buffer \<Rightarrow> nat \<Rightarrow> error + (nat \<times> nat)" where
  "Varint_decode buffer offset = Varint_decode_loop buffer offset 0 0 0"

text \<open>
  \<open>Varint.encodeBigInt\<close>: ZigZag on an unbounded integer, then the same loop with no
  32-bit cut. The loop leaves only when the shifted value reaches zero, which an
  arithmetic shift of a negative value never does, so it is a partial function.
\<close>

definition zigzag :: "int \<Rightarrow> int" where
  "zigzag v = push_bit 1 v XOR drop_bit 63 v"

partial_function (option) Varint_encodeBigInt_loop :: "int \<Rightarrow> buffer \<Rightarrow> buffer option" where
  "Varint_encodeBigInt_loop zz bytes =
     (let byte = zz AND 0x7f;
          zz' = drop_bit 7 zz;
          byte' = (if zz' \<noteq> 0 then byte OR 0x80 else byte);
          bytes' = bytes @ [of_int byte']
      in if zz' \<noteq> 0 then Varint_encodeBigInt_loop zz' bytes' else Some bytes')"

definition Varint_encodeBigInt :: "int \<Rightarrow> error + buffer" where
  "Varint_encodeBigInt v =
     (case Varint_encodeBigInt_loop (zigzag v) [] of
        None \<Rightarrow> Inl NonTermination
      | Some bytes \<Rightarrow> Inr bytes)"

text \<open>\<open>Varint.decodeBigInt\<close>: no cap on the number of bytes.\<close>

function Varint_decodeBigInt_loop ::
  "buffer \<Rightarrow> nat \<Rightarrow> int \<Rightarrow> nat \<Rightarrow> nat \<Rightarrow> error + (int \<times> nat)" where
  "Varint_decodeBigInt_loop buffer offset zz shift bytesRead =
     (if offset + bytesRead \<ge> length buffer then Inl Truncated
      else let byte = uint (buffer ! (offset + bytesRead));
               bytesRead' = bytesRead + 1;
               zz' = zz OR push_bit shift (byte AND 0x7f)
           in if byte AND 0x80 = 0
              then Inr (drop_bit 1 zz' XOR - (zz' AND 1), bytesRead')
              else Varint_decodeBigInt_loop buffer offset zz' (shift + 7) bytesRead')"
  by pat_completeness auto
termination
  by (relation "measure (\<lambda>(buffer, offset, zz, shift, bytesRead). length buffer - (offset + bytesRead))")
     auto

definition Varint_decodeBigInt :: "buffer \<Rightarrow> nat \<Rightarrow> error + (int \<times> nat)" where
  "Varint_decodeBigInt buffer offset = Varint_decodeBigInt_loop buffer offset 0 0 0"

declare Varint_encode_loop.simps [simp del]
declare Varint_decode_loop.simps [simp del]
declare Varint_decodeBigInt_loop.simps [simp del]


text \<open>Every successful decode consumes at least one byte; the loops of the codecs rely on it.\<close>

lemma Varint_decode_loop_progress:
  "Varint_decode_loop buf off val shift br = Inr (v, n) \<Longrightarrow> br < n"
proof (induction buf off val shift br rule: Varint_decode_loop.induct)
  case (1 buffer offset val shift bytesRead)
  from "1.prems" have inb: "\<not> offset + bytesRead \<ge> length buffer"
    by (auto simp add: Varint_decode_loop.simps [of buffer offset val shift bytesRead])
  show ?case
  proof (cases "buffer ! (offset + bytesRead) AND 0x80 = 0")
    case True
    with inb "1.prems" show ?thesis
      by (simp add: Varint_decode_loop.simps [of buffer offset val shift bytesRead] Let_def)
  next
    case c: False
    with inb "1.prems" have sh: "\<not> shift + 7 > 35"
      by (auto simp add: Varint_decode_loop.simps [of buffer offset val shift bytesRead] Let_def)
    let ?v = "val OR push_bit (shift mod 32) (ucast (buffer ! (offset + bytesRead) AND 0x7f))"
    from sh c inb "1.prems"
    have rec: "Varint_decode_loop buffer offset ?v (shift + 7) (bytesRead + 1) = Inr (v, n)"
      by (simp add: Varint_decode_loop.simps [of buffer offset val shift bytesRead] Let_def)
    from "1.IH" [OF inb refl refl refl c sh rec] show ?thesis by simp
  qed
qed

lemma Varint_decode_progress: "Varint_decode buf off = Inr (v, n) \<Longrightarrow> 0 < n"
  unfolding Varint_decode_def by (drule Varint_decode_loop_progress) simp

lemma Varint_decodeBigInt_loop_progress:
  "Varint_decodeBigInt_loop buf off zz shift br = Inr (v, n) \<Longrightarrow> br < n"
proof (induction buf off zz shift br rule: Varint_decodeBigInt_loop.induct)
  case (1 buffer offset zz shift bytesRead)
  from "1.prems" have inb: "\<not> offset + bytesRead \<ge> length buffer"
    by (auto simp add: Varint_decodeBigInt_loop.simps [of buffer offset zz shift bytesRead])
  show ?case
  proof (cases "uint (buffer ! (offset + bytesRead)) AND 0x80 = 0")
    case True
    with inb "1.prems" show ?thesis
      by (simp add: Varint_decodeBigInt_loop.simps [of buffer offset zz shift bytesRead] Let_def)
  next
    case c: False
    let ?z = "zz OR push_bit shift (uint (buffer ! (offset + bytesRead)) AND 0x7f)"
    from c inb "1.prems"
    have rec: "Varint_decodeBigInt_loop buffer offset ?z (shift + 7) (bytesRead + 1) = Inr (v, n)"
      by (simp add: Varint_decodeBigInt_loop.simps [of buffer offset zz shift bytesRead] Let_def)
    from "1.IH" [OF inb refl refl refl c rec] show ?thesis by simp
  qed
qed

lemma Varint_decodeBigInt_progress: "Varint_decodeBigInt buf off = Inr (v, n) \<Longrightarrow> 0 < n"
  unfolding Varint_decodeBigInt_def by (drule Varint_decodeBigInt_loop_progress) simp

section \<open>Values and the runtime\<close>

text \<open>
  A JavaScript number is a finite double, given by its rational value, or one of the
  three non-finite doubles (negative zero is identified with zero). The value type adds
  the \<open>MISSING\<close> symbol of \<open>NullableCodecWrapper.ts\<close> to the JavaScript values.
\<close>

datatype jsnum = Fin rat | PosInf | NegInf | NaN

datatype jvalue =
    JUndefined
  | JNull
  | JBool bool
  | JNum jsnum
  | JStr jsstring
  | JArr "jvalue list"
  | JObj "(jsstring \<times> jvalue) list"
  | MISSING

text \<open>
  The primitives of the Node runtime that the sources call and that are not exact
  integer arithmetic are parameters of the model: UTF-8 conversion of strings
  (\<open>Buffer.from(s, "utf8")\<close>, \<open>buf.toString("utf8")\<close>), \<open>Date\<close> parsing and
  formatting (\<open>None\<close> is the \<open>NaN\<close> of an unparseable date), the rounded product and
  quotient of doubles, and the IEEE-754 bit pattern of a double. The last field is
  explained with the casts below.
\<close>

datatype FieldType =
  STRING | NUMBER | BOOLEAN | TIMESTAMP | UUID | ENUM | OBJECT | ARRAY | ARRAY_PRIMITIVE

record runtime =
  utf8_encode :: "jsstring \<Rightarrow> buffer"
  utf8_decode :: "buffer \<Rightarrow> jsstring"
  Date_parse :: "jsstring \<Rightarrow> int option"
  Date_toISOString :: "int \<Rightarrow> jsstring"
  float_mul :: "rat \<Rightarrow> rat \<Rightarrow> jsnum"
  float_div_pow10 :: "jsnum \<Rightarrow> nat \<Rightarrow> jsnum"
  double_bits :: "jsnum \<Rightarrow> 64 word"
  bits_double :: "64 word \<Rightarrow> jsnum"
  unchecked_cast :: "FieldType \<Rightarrow> jvalue list \<Rightarrow> error + buffer"

text \<open>\<open>IFieldCodec\<close>: what the registry and the nullable wrapper see of a codec.\<close>

record codec =
  encode :: "jvalue list \<Rightarrow> error + buffer"
  decode :: "buffer \<Rightarrow> error + jvalue list"

text \<open>
  The casts \<open>values as number[]\<close> and \<open>values as (string | null)[]\<close> are not
  checked. Each codec is modelled on columns of its declared element type and \<open>null\<close>.
  What the same code makes of a column with an element of another kind depends on
  JavaScript's coercions and on object identity (the keys of \<open>Map\<close> and \<open>Set\<close>),
  which values do not carry; the model leaves that outcome open, as the field
  \<open>unchecked_cast\<close> of the runtime.
\<close>

fun as_number :: "jvalue \<Rightarrow> jsnum option option" where
  "as_number (JNum n) = Some (Some n)"
| "as_number JNull = Some None"
| "as_number _ = None"

fun as_string :: "jvalue \<Rightarrow> jsstring option option" where
  "as_string (JStr s) = Some (Some s)"
| "as_string JNull = Some None"
| "as_string _ = None"

definition on_typed_column ::
  "runtime \<Rightarrow> FieldType \<Rightarrow> (jvalue \<Rightarrow> 'a option) \<Rightarrow> ('a list \<Rightarrow> error + buffer) \<Rightarrow>
   jvalue list \<Rightarrow> error + buffer" where
  "on_typed_column rt t cast enc values =
     (case those (map cast values) of
        Some typed \<Rightarrow> enc typed
      | None \<Rightarrow> unchecked_cast rt t values)"

section \<open>NullableCodecWrapper (src/unnamed/part_001)\<close>

definition bitmap_bit :: "buffer \<Rightarrow> nat \<Rightarrow> bool" where
  "bitmap_bit bitmap i = (bitmap ! (i div 8) AND push_bit (i mod 8) 1 \<noteq> 0)"

text \<open>The loops of \<open>encode\<close> and \<open>decode\<close> over the row indices.\<close>

definition build_bitmap :: "jvalue list \<Rightarrow> buffer" where
  "build_bitmap values =
     foldl (\<lambda>bitmap i.
              if values ! i \<noteq> MISSING
              then bitmap[i div 8 := bitmap ! (i div 8) OR push_bit (i mod 8) 1]
              else bitmap)
           (replicate ((length values + 7) div 8) 0) [0..<length values]"

definition count_set_bits :: "buffer \<Rightarrow> nat \<Rightarrow> nat" where
  "count_set_bits bitmap totalLength =
     foldl (\<lambda>expectedNonNulls i. if bitmap_bit bitmap i then expectedNonNulls + 1 else expectedNonNulls)
           0 [0..<totalLength]"

definition interleave :: "buffer \<Rightarrow> jvalue list \<Rightarrow> nat \<Rightarrow> jvalue list" where
  "interleave bitmap decodedNonNulls totalLength =
     fst (foldl (\<lambda>(result, nonNullIdx) i.
                   if bitmap_bit bitmap i
                   then (result @ [decodedNonNulls ! nonNullIdx], nonNullIdx + 1)
                   else (result @ [MISSING], nonNullIdx))
                ([], 0) [0..<totalLength])"

definition NullableCodecWrapper_encode :: "codec \<Rightarrow> jvalue list \<Rightarrow> error + buffer" where
  "NullableCodecWrapper_encode c values =
     (let len = length values;
          nonNulls = filter (\<lambda>val. val \<noteq> MISSING) values;
          bitmap = build_bitmap values
      in bindE (encode c nonNulls) (\<lambda>encodedValues.
         bindE (writeUInt32LE len) (\<lambda>header.
         Inr (header @ bitmap @ encodedValues))))"

definition NullableCodecWrapper_decode :: "codec \<Rightarrow> buffer \<Rightarrow> error + jvalue list" where
  "NullableCodecWrapper_decode c buffer =
     (if length buffer < 4 then Inl Truncated
      else bindE (readUInt32LE buffer 0) (\<lambda>totalLength.
        if totalLength = 0 then Inr []
        else let bitmapLength = (totalLength + 7) div 8
             in if length buffer < 4 + bitmapLength then Inl Truncated
                else let bitmap = take bitmapLength (drop 4 buffer);
                         expectedNonNulls = count_set_bits bitmap totalLength
                     in bindE (decode c (drop (4 + bitmapLength) buffer)) (\<lambda>decodedNonNulls.
                          if expectedNonNulls \<noteq> length decodedNonNulls
                          then Inl (BitmapMismatch expectedNonNulls (length decodedNonNulls))
                          else Inr (interleave bitmap decodedNonNulls totalLength))))"

section \<open>NumberCodec (src/codecs/NumberCodec.ts)\<close>

definition Number_isInteger :: "jsnum \<Rightarrow> bool" where
  "Number_isInteger n = (case n of Fin q \<Rightarrow> q = of_int \<lfloor>q\<rfloor> | _ \<Rightarrow> False)"

definition Math_round :: "rat \<Rightarrow> rat" where
  "Math_round q = of_int \<lfloor>q + 1 / 2\<rfloor>"

text \<open>\<open>BigInt(n)\<close> throws unless \<open>n\<close> is an integer.\<close>

definition BigInt :: "jsnum option \<Rightarrow> error + int" where
  "BigInt n =
     (case n of
        None \<Rightarrow> Inl TypeError
      | Some (Fin q) \<Rightarrow> if q = of_int \<lfloor>q\<rfloor> then Inr \<lfloor>q\<rfloor> else Inl RangeError
      | Some _ \<Rightarrow> Inl RangeError)"

text \<open>\<open>n * multiplier\<close> for a positive multiplier; \<open>null\<close> converts to zero.\<close>

definition times :: "runtime \<Rightarrow> jsnum option \<Rightarrow> rat \<Rightarrow> jsnum" where
  "times rt n multiplier =
     (case n of
        None \<Rightarrow> Fin 0
      | Some (Fin q) \<Rightarrow> float_mul rt q multiplier
      | Some x \<Rightarrow> x)"

text \<open>
  \<open>Math.abs(scaled - Math.round(scaled)) < 1e-9\<close>. For a double \<open>scaled\<close> the rounding,
  the difference and the absolute value are exact, and no double lies between
  \<open>10\<^sup>-\<^sup>9\<close> and the double that the literal \<open>1e-9\<close> denotes, so the test is the exact
  comparison with \<open>10\<^sup>-\<^sup>9\<close>. A non-finite \<open>scaled\<close> makes the difference \<open>NaN\<close>.
\<close>

definition isFixedPoint :: "runtime \<Rightarrow> rat \<Rightarrow> jsnum option \<Rightarrow> bool" where
  "isFixedPoint rt multiplier n =
     (case times rt n multiplier of
        Fin scaled \<Rightarrow> \<bar>scaled - Math_round scaled\<bar> < 1 / 10 ^ 9
      | _ \<Rightarrow> False)"

definition round_scaled :: "runtime \<Rightarrow> rat \<Rightarrow> jsnum option \<Rightarrow> jsnum" where
  "round_scaled rt multiplier n =
     (case times rt n multiplier of Fin scaled \<Rightarrow> Fin (Math_round scaled) | x \<Rightarrow> x)"

text \<open>\<open>buffer.writeDoubleLE(n)\<close> converts its argument to a number: \<open>null\<close> is written as zero.\<close>

definition writeDoubleLE :: "runtime \<Rightarrow> jsnum option \<Rightarrow> buffer" where
  "writeDoubleLE rt n =
     le_bytes 8 (unat (double_bits rt (case n of None \<Rightarrow> Fin 0 | Some x \<Rightarrow> x)))"

definition NumberCodec_encode :: "runtime \<Rightarrow> jsnum option list \<Rightarrow> error + buffer" where
  "NumberCodec_encode rt nums =
     (if nums = [] then Inr []
      else if list_all (\<lambda>n. case n of None \<Rightarrow> False | Some x \<Rightarrow> Number_isInteger x) nums
      then bindE (mapE (\<lambda>n. bindE (BigInt n) Varint_encodeBigInt) nums) (\<lambda>buffers.
           Inr (0x01 # concat buffers))
      else case find (\<lambda>scale. list_all (isFixedPoint rt (10 ^ scale)) nums) [1..<7] of
             Some bestScale \<Rightarrow>
               bindE (mapE (\<lambda>n. bindE (BigInt (Some (round_scaled rt (10 ^ bestScale) n)))
                                  Varint_encodeBigInt) nums) (\<lambda>buffers.
               Inr (0x02 # of_nat bestScale # concat buffers))
           | None \<Rightarrow>
               Inr (0x00 # concat (map (writeDoubleLE rt) nums)))"

text \<open>
  \<open>Number(value)\<close> of a BigInt: the nearest double, ties to even, infinite from
  \<open>2\<^sup>1\<^sup>0\<^sup>2\<^sup>4\<close> on.
\<close>

definition round_to_double :: "int \<Rightarrow> int" where
  "round_to_double n =
     (let a = \<bar>n\<bar>; k = bitlen a - 53
      in if k \<le> 0 then n
         else let q = a div 2 ^ nat k;
                  r = a mod 2 ^ nat k;
                  h = 2 ^ (nat k - 1);
                  q' = (if r > h \<or> (r = h \<and> odd q) then q + 1 else q)
              in sgn n * q' * 2 ^ nat k)"

definition Number_of_BigInt :: "int \<Rightarrow> jsnum" where
  "Number_of_BigInt n =
     (let r = round_to_double n
      in if \<bar>r\<bar> \<ge> 2 ^ 1024 then (if r > 0 then PosInf else NegInf) else Fin (of_int r))"

function NumberCodec_decode_varints ::
  "(int \<Rightarrow> jsnum) \<Rightarrow> buffer \<Rightarrow> nat \<Rightarrow> jvalue list \<Rightarrow> error + jvalue list" where
  "NumberCodec_decode_varints conv buffer offset values =
     (if offset < length buffer
      then (case Varint_decodeBigInt buffer offset of
              Inl e \<Rightarrow> Inl e
            | Inr (v, bytesRead) \<Rightarrow>
                NumberCodec_decode_varints conv buffer (offset + bytesRead) (values @ [JNum (conv v)]))
      else Inr values)"
  by pat_completeness auto
termination
  by (relation "measure (\<lambda>(conv, buffer, offset, values). length buffer - offset)")
     (auto dest: Varint_decodeBigInt_progress)

function NumberCodec_decode_doubles ::
  "runtime \<Rightarrow> buffer \<Rightarrow> nat \<Rightarrow> jvalue list \<Rightarrow> error + jvalue list" where
  "NumberCodec_decode_doubles rt buffer offset values =
     (if offset < length buffer
      then (if offset + 8 \<le> length buffer
            then NumberCodec_decode_doubles rt buffer (offset + 8)
                   (values @ [JNum (bits_double rt (word_of_nat (le_value (take 8 (drop offset buffer)))))])
            else Inl RangeError)
      else Inr values)"
  by pat_completeness auto
termination
  by (relation "measure (\<lambda>(rt, buffer, offset, values). length buffer - offset)") auto

definition NumberCodec_decode :: "runtime \<Rightarrow> buffer \<Rightarrow> error + jvalue list" where
  "NumberCodec_decode rt buffer =
     (if buffer = [] then Inr []
      else let mode = buffer ! 0
           in if mode = 0x01 then NumberCodec_decode_varints Number_of_BigInt buffer 1 []
              else if mode = 0x02
              then (let scale = (if 1 < length buffer then unat (buffer ! 1) else 0)
                    in NumberCodec_decode_varints
                         (\<lambda>v. float_div_pow10 rt (Number_of_BigInt v) scale) buffer 2 [])
              else NumberCodec_decode_doubles rt buffer 1 [])"

definition NumberCodec :: "runtime \<Rightarrow> codec" where
  "NumberCodec rt =
     \<lparr> encode = on_typed_column rt NUMBER as_number (NumberCodec_encode rt),
       decode = NumberCodec_decode rt \<rparr>"

declare NumberCodec_decode_varints.simps [simp del]
declare NumberCodec_decode_doubles.simps [simp del]


section \<open>AdaptiveStringCodec (src/codecs/AdaptiveStringCodec.ts)\<close>

text \<open>
  The insertion-ordered dictionary: \<open>uniqueStrings\<close> and the \<open>Map\<close> from a value to its
  index (also \<open>Array.from(new Set(values))\<close> of the enum codec).
\<close>

definition build_dictionary :: "'a list \<Rightarrow> 'a list" where
  "build_dictionary xs = foldl (\<lambda>unique x. if x \<in> set unique then unique else unique @ [x]) [] xs"

definition dict_index :: "'a list \<Rightarrow> 'a \<Rightarrow> nat" where
  "dict_index unique x = length (takeWhile (\<lambda>y. y \<noteq> x) unique)"

text \<open>One length-prefixed entry: \<open>Varint(0)\<close> for null, else \<open>Varint(byteLen + 1)\<close> and the bytes.\<close>

definition string_entry :: "runtime \<Rightarrow> jsstring option \<Rightarrow> error + buffer" where
  "string_entry rt str =
     (case str of
        None \<Rightarrow> Varint_encode 0
      | Some s \<Rightarrow> (let strBuf = utf8_encode rt s
                   in bindE (Varint_encode (int (length strBuf) + 1)) (\<lambda>l. Inr (l @ strBuf))))"

text \<open>The run-length loop: \<open>currentIdx\<close>, \<open>currentRun\<close> and the indices still to read.\<close>

fun rle_loop :: "nat \<Rightarrow> nat \<Rightarrow> nat list \<Rightarrow> (nat \<times> nat) list" where
  "rle_loop currentIdx currentRun [] = [(currentIdx, currentRun)]"
| "rle_loop currentIdx currentRun (i # indices) =
     (if i = currentIdx then rle_loop currentIdx (currentRun + 1) indices
      else (currentIdx, currentRun) # rle_loop i 1 indices)"

definition rle_runs :: "nat list \<Rightarrow> (nat \<times> nat) list" where
  "rle_runs indices = (case indices of [] \<Rightarrow> [] | i # rest \<Rightarrow> rle_loop i 1 rest)"

definition rle_entry :: "nat \<times> nat \<Rightarrow> error + buffer" where
  "rle_entry r =
     bindE (Varint_encode (int (fst r))) (\<lambda>idxBuf.
     bindE (Varint_encode (int (snd r))) (\<lambda>runBuf. Inr (idxBuf @ runBuf)))"

text \<open>
  \<open>uniqueStrings.length < strings.length * 0.7\<close> compares an integer with the rounded
  double product. The product is never above \<open>7n/10\<close> and never at or below the integer
  under it, so for the integer on the left the test is \<open>10 u < 7 n\<close>.
\<close>

definition AdaptiveStringCodec_encode :: "runtime \<Rightarrow> jsstring option list \<Rightarrow> error + buffer" where
  "AdaptiveStringCodec_encode rt strings =
     (if strings = [] then Inr []
      else let uniqueStrings = build_dictionary strings;
               isDictionaryBetter = (10 * length uniqueStrings < 7 * length strings)
           in if \<not> isDictionaryBetter
              then bindE (mapE (string_entry rt) strings) (\<lambda>buffers. Inr (0x00 # concat buffers))
              else bindE (Varint_encode (int (length uniqueStrings))) (\<lambda>sizeBuf.
                   bindE (mapE (string_entry rt) uniqueStrings) (\<lambda>entries.
                   let dictHeader = sizeBuf @ concat entries;
                       indices = map (dict_index uniqueStrings) strings
                   in bindE (mapE (\<lambda>idx. Varint_encode (int idx)) indices) (\<lambda>standardIndicesBuffers.
                      bindE (mapE rle_entry (rle_runs indices)) (\<lambda>rleBuffers.
                      let standardSize = length (concat standardIndicesBuffers);
                          rleSize = length (concat rleBuffers)
                      in if rleSize < standardSize
                         then Inr (0x02 # dictHeader @ concat rleBuffers)
                         else Inr (0x01 # dictHeader @ concat standardIndicesBuffers))))))"

text \<open>Reading one entry at \<open>offset\<close>; \<open>slice\<close> clamps at the end of the buffer.\<close>

definition read_string_entry :: "runtime \<Rightarrow> buffer \<Rightarrow> nat \<Rightarrow> error + (jvalue \<times> nat)" where
  "read_string_entry rt buffer offset =
     bindE (Varint_decode buffer offset) (\<lambda>(lenPlusOne, slRead).
       if lenPlusOne = 0 then Inr (JNull, offset + slRead)
       else let strLen = lenPlusOne - 1
            in Inr (JStr (utf8_decode rt (take strLen (drop (offset + slRead) buffer))),
                    offset + slRead + strLen))"

lemma read_string_entry_progress:
  "read_string_entry rt buffer offset = Inr (v, offset') \<Longrightarrow> offset < offset'"
proof (cases "Varint_decode buffer offset")
  case (Inl e)
  then show "read_string_entry rt buffer offset = Inr (v, offset') \<Longrightarrow> offset < offset'"
    by (simp add: read_string_entry_def)
next
  case (Inr r)
  obtain lenPlusOne slRead where r: "r = (lenPlusOne, slRead)" by (cases r)
  with Inr have "0 < slRead" by (auto dest: Varint_decode_progress)
  with Inr r show "read_string_entry rt buffer offset = Inr (v, offset') \<Longrightarrow> offset < offset'"
    by (auto simp add: read_string_entry_def Let_def split: if_splits)
qed

function AdaptiveStringCodec_decode_raw ::
  "runtime \<Rightarrow> buffer \<Rightarrow> nat \<Rightarrow> jvalue list \<Rightarrow> error + jvalue list" where
  "AdaptiveStringCodec_decode_raw rt buffer offset values =
     (if offset < length buffer
      then (case read_string_entry rt buffer offset of
              Inl e \<Rightarrow> Inl e
            | Inr (v, offset') \<Rightarrow> AdaptiveStringCodec_decode_raw rt buffer offset' (values @ [v]))
      else Inr values)"
  by pat_completeness auto
termination
  by (relation "measure (\<lambda>(rt, buffer, offset, values). length buffer - offset)")
     (auto dest: read_string_entry_progress)

text \<open>The \<open>for (i = 0; i < dictSize; i++)\<close> loop, counting the entries still to read.\<close>

fun read_dictionary ::
  "runtime \<Rightarrow> buffer \<Rightarrow> nat \<Rightarrow> nat \<Rightarrow> jvalue list \<Rightarrow> error + (jvalue list \<times> nat)" where
  "read_dictionary rt buffer 0 offset dictionary = Inr (dictionary, offset)"
| "read_dictionary rt buffer (Suc remaining) offset dictionary =
     (case read_string_entry rt buffer offset of
        Inl e \<Rightarrow> Inl e
      | Inr (v, offset') \<Rightarrow> read_dictionary rt buffer remaining offset' (dictionary @ [v]))"

text \<open>\<open>dictionary[index]\<close> is \<open>undefined\<close> out of range.\<close>

definition dictionary_at :: "jvalue list \<Rightarrow> nat \<Rightarrow> jvalue" where
  "dictionary_at dictionary index =
     (if index < length dictionary then dictionary ! index else JUndefined)"

function AdaptiveStringCodec_decode_indices ::
  "jvalue list \<Rightarrow> buffer \<Rightarrow> nat \<Rightarrow> jvalue list \<Rightarrow> error + jvalue list" where
  "AdaptiveStringCodec_decode_indices dictionary buffer offset values =
     (if offset < length buffer
      then (case Varint_decode buffer offset of
              Inl e \<Rightarrow> Inl e
            | Inr (index, idxRead) \<Rightarrow>
                AdaptiveStringCodec_decode_indices dictionary buffer (offset + idxRead)
                  (values @ [dictionary_at dictionary index]))
      else Inr values)"
  by pat_completeness auto
termination
  by (relation "measure (\<lambda>(dictionary, buffer, offset, values). length buffer - offset)")
     (auto dest: Varint_decode_progress)

function AdaptiveStringCodec_decode_rle ::
  "jvalue list \<Rightarrow> buffer \<Rightarrow> nat \<Rightarrow> jvalue list \<Rightarrow> error + jvalue list" where
  "AdaptiveStringCodec_decode_rle dictionary buffer offset values =
     (if offset < length buffer
      then (case Varint_decode buffer offset of
              Inl e \<Rightarrow> Inl e
            | Inr (index, idxRead) \<Rightarrow>
                (case Varint_decode buffer (offset + idxRead) of
                   Inl e \<Rightarrow> Inl e
                 | Inr (runLen, runRead) \<Rightarrow>
                     AdaptiveStringCodec_decode_rle dictionary buffer (offset + idxRead + runRead)
                       (values @ replicate runLen (dictionary_at dictionary index))))
      else Inr values)"
  by pat_completeness auto
termination
  by (relation "measure (\<lambda>(dictionary, buffer, offset, values). length buffer - offset)")
     (auto dest: Varint_decode_progress)

definition AdaptiveStringCodec_decode :: "runtime \<Rightarrow> buffer \<Rightarrow> error + jvalue list" where
  "AdaptiveStringCodec_decode rt buffer =
     (if buffer = [] then Inr []
      else let mode = buffer ! 0
           in if mode = 0x00 then AdaptiveStringCodec_decode_raw rt buffer 1 []
              else if mode = 0x01 \<or> mode = 0x02
              then bindE (Varint_decode buffer 1) (\<lambda>(dictSize, dsRead).
                   bindE (read_dictionary rt buffer dictSize (1 + dsRead) []) (\<lambda>(dictionary, offset).
                     if mode = 0x01
                     then AdaptiveStringCodec_decode_indices dictionary buffer offset []
                     else AdaptiveStringCodec_decode_rle dictionary buffer offset []))
              else Inl (UnknownMode mode))"

definition AdaptiveStringCodec :: "runtime \<Rightarrow> codec" where
  "AdaptiveStringCodec rt =
     \<lparr> encode = on_typed_column rt STRING as_string (AdaptiveStringCodec_encode rt),
       decode = AdaptiveStringCodec_decode rt \<rparr>"

declare AdaptiveStringCodec_decode_raw.simps [simp del]
declare AdaptiveStringCodec_decode_indices.simps [simp del]
declare AdaptiveStringCodec_decode_rle.simps [simp del]

section \<open>TimestampCodec (src/codecs/AdaptiveStringCodec.ts, second file)\<close>

text \<open>
  \<open>new Date(v).getTime()\<close>: the parsed epoch milliseconds, \<open>NaN\<close> (\<open>None\<close>) for an
  unparseable string, and 0 for \<open>null\<close>.
\<close>

definition getTime :: "runtime \<Rightarrow> jsstring option \<Rightarrow> int option" where
  "getTime rt v = (case v of None \<Rightarrow> Some 0 | Some s \<Rightarrow> Date_parse rt s)"

definition BigInt_of_time :: "int option \<Rightarrow> error + int" where
  "BigInt_of_time t = (case t of None \<Rightarrow> Inl RangeError | Some ms \<Rightarrow> Inr ms)"

definition TimestampCodec_encode :: "runtime \<Rightarrow> jsstring option list \<Rightarrow> error + buffer" where
  "TimestampCodec_encode rt values =
     (let timestamps = map (getTime rt) values
      in if timestamps = [] then Inr []
         else bindE (BigInt_of_time (timestamps ! 0)) (\<lambda>base.
              bindE (mapE (\<lambda>t. bindE (BigInt_of_time t) (\<lambda>b. Inr (b - base))) timestamps) (\<lambda>deltas.
              bindE (writeBigInt64LE base) (\<lambda>baseBuf.
              bindE (mapE Varint_encodeBigInt deltas) (\<lambda>buffers.
              Inr (baseBuf @ concat buffers))))))"

text \<open>
  In \<open>decode\<close>, \<open>base\<close> and every delta pass through \<open>Number\<close>, and their sum is a double
  addition. \<open>new Date(v).toISOString()\<close> throws a \<open>RangeError\<close> outside the range of
  valid time values, \<open>\<plusminus>8.64\<cdot>10\<^sup>1\<^sup>5\<close> milliseconds.
\<close>

function TimestampCodec_decode_loop ::
  "int \<Rightarrow> buffer \<Rightarrow> nat \<Rightarrow> int list \<Rightarrow> error + int list" where
  "TimestampCodec_decode_loop base buffer offset values =
     (if offset < length buffer
      then (case Varint_decodeBigInt buffer offset of
              Inl e \<Rightarrow> Inl e
            | Inr (delta, bytesRead) \<Rightarrow>
                TimestampCodec_decode_loop base buffer (offset + bytesRead)
                  (values @ [round_to_double (base + round_to_double delta)]))
      else Inr values)"
  by pat_completeness auto
termination
  by (relation "measure (\<lambda>(base, buffer, offset, values). length buffer - offset)")
     (auto dest: Varint_decodeBigInt_progress)

definition toISOString :: "runtime \<Rightarrow> int \<Rightarrow> error + jvalue" where
  "toISOString rt v =
     (if \<bar>v\<bar> \<le> 8640000000000000 then Inr (JStr (Date_toISOString rt v)) else Inl RangeError)"

definition TimestampCodec_decode :: "runtime \<Rightarrow> buffer \<Rightarrow> error + jvalue list" where
  "TimestampCodec_decode rt buffer =
     (if length buffer < 8 then Inr []
      else bindE (readBigInt64LE buffer 0) (\<lambda>b.
           bindE (TimestampCodec_decode_loop (round_to_double b) buffer 8 []) (\<lambda>values.
           mapE (toISOString rt) values)))"

definition TimestampCodec :: "runtime \<Rightarrow> codec" where
  "TimestampCodec rt =
     \<lparr> encode = on_typed_column rt TIMESTAMP as_string (TimestampCodec_encode rt),
       decode = TimestampCodec_decode rt \<rparr>"

declare TimestampCodec_decode_loop.simps [simp del]


section \<open>EnumCodec (src/codecs/EnumCodec.ts)\<close>

definition enum_dict_entry :: "runtime \<Rightarrow> jsstring option \<Rightarrow> error + buffer" where
  "enum_dict_entry rt u =
     (case u of
        None \<Rightarrow> Inr [255]
      | Some s \<Rightarrow> (let b = utf8_encode rt s
                   in if length b \<ge> 255 then Inl EnumStringTooLong
                      else Inr (of_nat (length b) # b)))"

text \<open>The loop that packs the dictionary indices of \<open>values\<close> into \<open>packed\<close>.\<close>

definition EnumCodec_pack :: "'a list \<Rightarrow> 'a list \<Rightarrow> buffer" where
  "EnumCodec_pack unique values =
     foldl (\<lambda>packed i.
              let val = of_nat (dict_index unique (values ! i))
              in if i mod 2 = 0
                 then packed[i div 2 := push_bit 4 val]
                 else packed[i div 2 := packed ! (i div 2) OR val])
           (replicate ((length values + 1) div 2) 0) [0..<length values]"

definition EnumCodec_encode :: "runtime \<Rightarrow> jsstring option list \<Rightarrow> error + buffer" where
  "EnumCodec_encode rt values =
     (let count = length values
      in bindE (writeUInt32LE count) (\<lambda>prefix.
         if count = 0 then Inr prefix
         else let unique = build_dictionary values;
                  uniqueCount = length unique
              in bindE (mapE (enum_dict_entry rt) unique) (\<lambda>entries.
                 let dictParts = of_nat uniqueCount # concat entries
                 in if uniqueCount > 16
                    then Inr (prefix @ dictParts @ map (\<lambda>v. of_nat (dict_index unique v)) values)
                    else let packed = EnumCodec_pack unique values
                         in Inr (prefix @ dictParts @ packed))))"

fun enum_read_dictionary ::
  "runtime \<Rightarrow> buffer \<Rightarrow> nat \<Rightarrow> nat \<Rightarrow> jvalue list \<Rightarrow> error + (jvalue list \<times> nat)" where
  "enum_read_dictionary rt buffer 0 offset dictionary = Inr (dictionary, offset)"
| "enum_read_dictionary rt buffer (Suc remaining) offset dictionary =
     (if offset + 1 > length buffer then Inl Truncated
      else let len = unat (buffer ! offset);
               offset1 = offset + 1
           in if len = 255
              then enum_read_dictionary rt buffer remaining offset1 (dictionary @ [JNull])
              else if offset1 + len > length buffer then Inl Truncated
              else enum_read_dictionary rt buffer remaining (offset1 + len)
                     (dictionary @ [JStr (utf8_decode rt (take len (drop offset1 buffer)))]))"

text \<open>
  The nibble loop of \<open>decode\<close>: \<open>i\<close> and \<open>idx\<close> advance together; it returns the result
  array and the number of entries it has filled.
\<close>

function enum_unpack ::
  "jvalue list \<Rightarrow> nat \<Rightarrow> buffer \<Rightarrow> nat \<Rightarrow> nat \<Rightarrow> jvalue list \<Rightarrow> jvalue list \<times> nat" where
  "enum_unpack dictionary uniqueCount packed count i result =
     (if i < length packed * 2 \<and> i < count
      then let byte = packed ! (i div 2);
               val = unat (if i mod 2 = 0 then drop_bit 4 byte else byte AND 0x0f)
           in if val \<ge> uniqueCount then (result, i)
              else enum_unpack dictionary uniqueCount packed count (i + 1)
                     (result[i := dictionary_at dictionary val])
      else (result, i))"
  by pat_completeness auto
termination
  by (relation "measure (\<lambda>(dictionary, uniqueCount, packed, count, i, result). count - i)") auto

definition EnumCodec_decode :: "runtime \<Rightarrow> buffer \<Rightarrow> error + jvalue list" where
  "EnumCodec_decode rt buffer =
     (if length buffer < 4 then Inl Truncated
      else bindE (readUInt32LE buffer 0) (\<lambda>count.
        if count = 0 then Inr []
        else if length buffer < 4 + 1 then Inl Truncated
        else let uniqueCount = unat (buffer ! 4)
             in bindE (enum_read_dictionary rt buffer uniqueCount 5 []) (\<lambda>(dictionary, offset).
                if uniqueCount > 16
                then (let indexBuf = drop offset buffer
                      in if length indexBuf < count then Inl EnumUnderflow
                         else mapE (\<lambda>b. if unat b \<ge> uniqueCount then Inl DictIndexOutOfRange
                                         else Inr (dictionary_at dictionary (unat b)))
                                   (take count indexBuf))
                else (let r = enum_unpack dictionary uniqueCount (drop offset buffer) count 0
                                (replicate count JNull)
                      in if snd r < count then Inl EnumUnderflow else Inr (fst r)))))"

definition EnumCodec :: "runtime \<Rightarrow> codec" where
  "EnumCodec rt =
     \<lparr> encode = on_typed_column rt ENUM as_string (EnumCodec_encode rt),
       decode = EnumCodec_decode rt \<rparr>"

declare enum_unpack.simps [simp del]

section \<open>UUIDCodec (src/unnamed/part_005)\<close>

text \<open>
  \<open>Buffer.from(s, "hex")\<close> reads pairs of hexadecimal digits of either case and stops at
  the first pair that is not one; \<open>toString("hex")\<close> writes two lowercase digits a byte.
\<close>

definition hex_digit_value :: "16 word \<Rightarrow> nat option" where
  "hex_digit_value c =
     (if 0x30 \<le> c \<and> c \<le> 0x39 then Some (unat c - 0x30)
      else if 0x61 \<le> c \<and> c \<le> 0x66 then Some (unat c - 0x61 + 10)
      else if 0x41 \<le> c \<and> c \<le> 0x46 then Some (unat c - 0x41 + 10)
      else None)"

fun hex_decode :: "jsstring \<Rightarrow> buffer" where
  "hex_decode (a # b # rest) =
     (case (hex_digit_value a, hex_digit_value b) of
        (Some h, Some l) \<Rightarrow> of_nat (16 * h + l) # hex_decode rest
      | _ \<Rightarrow> [])"
| "hex_decode _ = []"

definition hex_digit :: "nat \<Rightarrow> 16 word" where
  "hex_digit n = (if n < 10 then of_nat (0x30 + n) else of_nat (0x61 + (n - 10)))"

definition hex_encode :: "buffer \<Rightarrow> jsstring" where
  "hex_encode buf = concat (map (\<lambda>b. [hex_digit (unat b div 16), hex_digit (unat b mod 16)]) buf)"

definition remove_hyphens :: "jsstring \<Rightarrow> jsstring" where
  "remove_hyphens s = filter (\<lambda>c. c \<noteq> 0x2D) s"

text \<open>
  \<open>(v as string).replace(...)\<close> is a \<open>TypeError\<close> for every value that is not a
  string: \<open>null\<close> and \<open>undefined\<close> have no properties, and no other value has a
  callable \<open>replace\<close>. \<open>None\<close> stands for such a value.
\<close>

fun has_replace :: "jvalue \<Rightarrow> jsstring option" where
  "has_replace (JStr s) = Some s"
| "has_replace _ = None"

definition UUIDCodec_encode :: "jsstring option list \<Rightarrow> error + buffer" where
  "UUIDCodec_encode values =
     bindE (mapE (\<lambda>v. case v of None \<Rightarrow> Inl TypeError
                              | Some s \<Rightarrow> Inr (hex_decode (remove_hyphens s))) values)
           (\<lambda>buffers. Inr (concat buffers))"

definition format_uuid :: "jsstring \<Rightarrow> jsstring" where
  "format_uuid hex =
     take 8 hex @ [0x2D] @ take 4 (drop 8 hex) @ [0x2D] @ take 4 (drop 12 hex) @ [0x2D] @
     take 4 (drop 16 hex) @ [0x2D] @ drop 20 hex"

function UUIDCodec_decode_loop :: "buffer \<Rightarrow> nat \<Rightarrow> jvalue list \<Rightarrow> jvalue list" where
  "UUIDCodec_decode_loop buffer i uuids =
     (if i < length buffer
      then UUIDCodec_decode_loop buffer (i + 16)
             (uuids @ [JStr (format_uuid (hex_encode (take 16 (drop i buffer))))])
      else uuids)"
  by pat_completeness auto
termination
  by (relation "measure (\<lambda>(buffer, i, uuids). length buffer - i)") auto

definition UUIDCodec_decode :: "buffer \<Rightarrow> error + jvalue list" where
  "UUIDCodec_decode buffer = Inr (UUIDCodec_decode_loop buffer 0 [])"

definition UUIDCodec :: codec where
  "UUIDCodec =
     \<lparr> encode = (\<lambda>values. UUIDCodec_encode (map has_replace values)),
       decode = UUIDCodec_decode \<rparr>"

declare UUIDCodec_decode_loop.simps [simp del]


section \<open>Example inputs\<close>

text \<open>
  ASCII strings as code units, and a runtime for evaluating the examples. It agrees with
  Node where the examples use it: UTF-8 conversion of ASCII strings (one byte per code
  unit), products of doubles that are exactly representable, and the dates of its table.
  The examples use no other primitive; the remaining fields are placeholders.
\<close>

definition ascii :: "string \<Rightarrow> jsstring" where
  "ascii s = map of_char s"

definition example_Date_parse :: "jsstring \<Rightarrow> int option" where
  "example_Date_parse s =
     (if s = ascii ''2025-01-01T00:00:00.000Z'' then Some 1735689600000
      else if s = ascii ''2025-01-01T00:00:00.001Z'' then Some 1735689600001
      else None)"

definition example_Date_toISOString :: "int \<Rightarrow> jsstring" where
  "example_Date_toISOString t =
     (if t = 1735689600000 then ascii ''2025-01-01T00:00:00.000Z''
      else if t = 1735689600001 then ascii ''2025-01-01T00:00:00.001Z''
      else [])"

definition example_runtime :: runtime where
  "example_runtime =
     \<lparr> utf8_encode = map ucast, utf8_decode = map ucast,
       Date_parse = example_Date_parse,
       Date_toISOString = example_Date_toISOString,
       float_mul = (\<lambda>a b. Fin (a * b)),
       float_div_pow10 = (\<lambda>x s. x),
       double_bits = (\<lambda>x. 0), bits_double = (\<lambda>w. Fin 0),
       unchecked_cast = (\<lambda>t values. Inl TypeError) \<rparr>"

section \<open>Unsigned LEB128 as a byte sequence\<close>

text \<open>
  The bytes of a natural number in unsigned LEB128: seven payload bits per byte, least
  significant group first, the continuation bit set on every byte but the last. The
  BigInt varint of the source is compared with it below.
\<close>

function leb128 :: "nat \<Rightarrow> buffer" where
  "leb128 n = (if n < 128 then [of_nat n] else of_nat (n mod 128 + 128) # leb128 (n div 128))"
  by pat_completeness auto
termination by (relation "measure id") auto

declare leb128.simps [simp del]

section \<open>Dates at the ends of the range\<close>

text \<open>
  The first and the last-but-one millisecond of the range of valid dates, and the
  last one, for the example of the timestamp codec. The other fields are those of
  \<open>example_runtime\<close>.
\<close>

definition far_Date_parse :: "jsstring \<Rightarrow> int option" where
  "far_Date_parse s =
     (if s = ascii ''-271821-04-20T00:00:00.000Z'' then Some (- 8640000000000000)
      else if s = ascii ''+275760-09-12T23:59:59.999Z'' then Some 8639999999999999
      else if s = ascii ''+275760-09-13T00:00:00.000Z'' then Some 8640000000000000
      else None)"

definition far_Date_toISOString :: "int \<Rightarrow> jsstring" where
  "far_Date_toISOString t =
     (if t = - 8640000000000000 then ascii ''-271821-04-20T00:00:00.000Z''
      else if t = 8639999999999999 then ascii ''+275760-09-12T23:59:59.999Z''
      else if t = 8640000000000000 then ascii ''+275760-09-13T00:00:00.000Z''
      else [])"

definition far_runtime :: runtime where
  "far_runtime =
     example_runtime \<lparr> Date_parse := far_Date_parse, Date_toISOString := far_Date_toISOString \<rparr>"

section \<open>Properties of the Varint codec\<close>

text \<open>
  The continuation bit of a byte, and the value a sequence of LEB128 bytes denotes:
  7 payload bits per byte, little-endian.
\<close>

definition continuation :: "byte \<Rightarrow> bool" where
  "continuation b = (b AND 0x80 \<noteq> 0)"

fun leb_payload :: "buffer \<Rightarrow> nat" where
  "leb_payload [] = 0"
| "leb_payload (b # bs) = unat (b AND 0x7f) + 128 * leb_payload bs"

lemma leb_payload_snoc:
  "leb_payload (bs @ [b]) = leb_payload bs + unat (b AND 0x7f) * 128 ^ length bs"
  by (induction bs) (simp_all add: algebra_simps)

lemma leb_payload_bound: "leb_payload bs < 128 ^ length bs"
proof (induction bs)
  case Nil
  show ?case by simp
next
  case (Cons b bs)
  have "unat (b AND 0x7f) \<le> unat (0x7f :: byte)"
    by (rule word_and_le1 [THEN word_le_nat_alt [THEN iffD1]])
  then have "unat (b AND 0x7f) < 128" by simp
  with Cons show ?case by simp
qed

lemma or_push_bit_word:
  fixes c :: "32 word"
  assumes "p < 2 ^ s"
  shows "word_of_nat p OR push_bit s c = (word_of_nat p + push_bit s c :: 32 word)"
proof -
  have nb: "bit p n \<Longrightarrow> n < s" for n
  proof -
    assume "bit p n"
    moreover from assms have "take_bit s p = p" by (rule take_bit_nat_eq_self)
    ultimately have "bit (take_bit s p) n" by simp
    then show "n < s" by (simp add: bit_take_bit_iff)
  qed
  have "\<not> bit (word_of_nat p :: 32 word) n \<or> \<not> bit (push_bit s c) n" for n
    using nb [of n] by (auto simp add: bit_simps)
  then show ?thesis by (simp add: disjunctive_add)
qed

lemma Varint_decode_loop_Inr:
  "Varint_decode_loop buf off val shift br = Inr (v, n) \<Longrightarrow> shift \<le> 35 \<Longrightarrow>
     br < n \<and> off + n \<le> length buf \<and> \<not> continuation (buf ! (off + n - 1)) \<and>
     (\<forall>i. br \<le> i \<and> i < n - 1 \<longrightarrow> continuation (buf ! (off + i))) \<and>
     shift + 7 * (n - br - 1) \<le> 35"
proof (induction buf off val shift br rule: Varint_decode_loop.induct)
  case (1 buffer offset val shift bytesRead)
  show ?case
  proof (cases "offset + bytesRead \<ge> length buffer")
    case True
    with "1.prems" show ?thesis by (simp add: Varint_decode_loop.simps)
  next
    case inb: False
    show ?thesis
    proof (cases "buffer ! (offset + bytesRead) AND 0x80 = 0")
      case True
      with inb "1.prems" have "n = bytesRead + 1"
        by (simp add: Varint_decode_loop.simps [of buffer offset val shift bytesRead] Let_def)
      with True inb "1.prems" show ?thesis by (auto simp add: continuation_def)
    next
      case c: False
      show ?thesis
      proof (cases "shift + 7 > 35")
        case True
        with c inb "1.prems" show ?thesis
          by (simp add: Varint_decode_loop.simps [of buffer offset val shift bytesRead] Let_def)
      next
        case False
        let ?v = "val OR push_bit (shift mod 32) (ucast (buffer ! (offset + bytesRead) AND 0x7f))"
        from False c inb "1.prems"
        have rec: "Varint_decode_loop buffer offset ?v (shift + 7) (bytesRead + 1) = Inr (v, n)"
          by (simp add: Varint_decode_loop.simps [of buffer offset val shift bytesRead] Let_def)
        have ih: "bytesRead + 1 < n \<and> offset + n \<le> length buffer \<and>
            \<not> continuation (buffer ! (offset + n - 1)) \<and>
            (\<forall>i. bytesRead + 1 \<le> i \<and> i < n - 1 \<longrightarrow> continuation (buffer ! (offset + i))) \<and>
            shift + 7 + 7 * (n - (bytesRead + 1) - 1) \<le> 35"
          using "1.IH" [OF inb refl refl refl c False rec] False by simp
        have "\<And>i. bytesRead \<le> i \<Longrightarrow> i < n - 1 \<Longrightarrow> continuation (buffer ! (offset + i))"
        proof -
          fix i assume a: "bytesRead \<le> i" "i < n - 1"
          show "continuation (buffer ! (offset + i))"
          proof (cases "i = bytesRead")
            case True
            with c show ?thesis by (simp add: continuation_def)
          next
            case False
            with a have "bytesRead + 1 \<le> i" by simp
            with ih a show ?thesis by blast
          qed
        qed
        moreover from ih have "shift + 7 * (n - bytesRead - 1) \<le> 35" by arith
        ultimately show ?thesis using ih by simp
      qed
    qed
  qed
qed

lemma Varint_decode_loop_overflow:
  "off + 6 \<le> length buf \<Longrightarrow> (\<forall>i. br \<le> i \<and> i < 6 \<longrightarrow> continuation (buf ! (off + i))) \<Longrightarrow>
   shift = 7 * br \<Longrightarrow> br < 6 \<Longrightarrow>
   Varint_decode_loop buf off val shift br = Inl VarintOverflow"
proof (induction buf off val shift br rule: Varint_decode_loop.induct)
  case (1 buffer offset val shift bytesRead)
  from "1.prems" have inb: "\<not> offset + bytesRead \<ge> length buffer" by simp
  from "1.prems" have c: "buffer ! (offset + bytesRead) AND 0x80 \<noteq> 0"
    by (simp add: continuation_def)
  show ?case
  proof (cases "shift + 7 > 35")
    case True
    with inb c show ?thesis
      by (simp add: Varint_decode_loop.simps [of buffer offset val shift bytesRead] Let_def)
  next
    case False
    with "1.prems" have br: "bytesRead + 1 < 6" by simp
    let ?v = "val OR push_bit (shift mod 32) (ucast (buffer ! (offset + bytesRead) AND 0x7f))"
    have "Varint_decode_loop buffer offset ?v (shift + 7) (bytesRead + 1) = Inl VarintOverflow"
      using "1.IH" [OF inb refl refl refl c False] "1.prems" br by simp
    with inb c False show ?thesis
      by (simp add: Varint_decode_loop.simps [of buffer offset val shift bytesRead] Let_def)
  qed
qed

lemma Varint_decode_loop_truncated:
  "(\<forall>i. br \<le> i \<and> off + i < length buf \<longrightarrow> continuation (buf ! (off + i))) \<Longrightarrow>
   shift + 7 * (length buf - (off + br)) \<le> 35 \<Longrightarrow>
   Varint_decode_loop buf off val shift br = Inl Truncated"
proof (induction buf off val shift br rule: Varint_decode_loop.induct)
  case (1 buffer offset val shift bytesRead)
  show ?case
  proof (cases "offset + bytesRead \<ge> length buffer")
    case True
    then show ?thesis by (simp add: Varint_decode_loop.simps)
  next
    case inb: False
    with "1.prems" have c: "buffer ! (offset + bytesRead) AND 0x80 \<noteq> 0"
      by (simp add: continuation_def)
    from inb "1.prems" have sh: "\<not> shift + 7 > 35" by simp
    let ?v = "val OR push_bit (shift mod 32) (ucast (buffer ! (offset + bytesRead) AND 0x7f))"
    have "shift + 7 + 7 * (length buffer - (offset + (bytesRead + 1))) \<le> 35"
      using inb "1.prems"(2) by arith
    then have "Varint_decode_loop buffer offset ?v (shift + 7) (bytesRead + 1) = Inl Truncated"
      using "1.IH" [OF inb refl refl refl c sh] "1.prems"(1) by simp
    with inb c sh show ?thesis
      by (simp add: Varint_decode_loop.simps [of buffer offset val shift bytesRead] Let_def)
  qed
qed

lemma Varint_decode_loop_value:
  "Varint_decode_loop buf off val shift br = Inr (v, n) \<Longrightarrow> shift = 7 * br \<Longrightarrow> n \<le> 5 \<Longrightarrow>
   val = word_of_nat (leb_payload (take br (drop off buf))) \<Longrightarrow>
   v = leb_payload (take n (drop off buf)) mod 2 ^ 32"
proof (induction buf off val shift br rule: Varint_decode_loop.induct)
  case (1 buffer offset val shift bytesRead)
  from "1.prems"(1) have inb: "\<not> offset + bytesRead \<ge> length buffer"
    by (auto simp add: Varint_decode_loop.simps [of buffer offset val shift bytesRead])
  let ?b = "buffer ! (offset + bytesRead)"
  let ?p = "leb_payload (take bytesRead (drop offset buffer))"
  let ?v = "val OR push_bit (shift mod 32) (ucast (?b AND 0x7f))"
  from Varint_decode_loop_progress [OF "1.prems"(1)] "1.prems"(3) have br: "bytesRead \<le> 4" by simp
  with "1.prems"(2) have sm: "shift mod 32 = shift" by simp
  have len: "length (take bytesRead (drop offset buffer)) = bytesRead" using inb by simp
  have "?p < 128 ^ bytesRead" using leb_payload_bound [of "take bytesRead (drop offset buffer)"] len by simp
  also have "\<dots> = 2 ^ shift" using "1.prems"(2) by (simp add: power_mult)
  finally have pb: "?p < 2 ^ shift" .
  have tk: "take (bytesRead + 1) (drop offset buffer) = take bytesRead (drop offset buffer) @ [?b]"
    using inb by (simp add: take_Suc_conv_app_nth)
  have "?v = word_of_nat ?p + push_bit shift (ucast (?b AND 0x7f))"
    using or_push_bit_word [OF pb] "1.prems"(4) sm by simp
  also have "\<dots> = word_of_nat (?p + unat (?b AND 0x7f) * 128 ^ bytesRead)"
    using "1.prems"(2) by (simp add: push_bit_eq_mult power_mult)
  finally have key: "?v = word_of_nat (leb_payload (take (bytesRead + 1) (drop offset buffer)))"
    by (simp only: tk leb_payload_snoc len)
  show ?case
  proof (cases "?b AND 0x80 = 0")
    case True
    with inb "1.prems"(1) have "n = bytesRead + 1" "v = unat ?v"
      by (simp_all add: Varint_decode_loop.simps [of buffer offset val shift bytesRead] Let_def)
    with key show ?thesis by (simp add: unat_of_nat)
  next
    case c: False
    with inb "1.prems"(1) have sh: "\<not> shift + 7 > 35"
      by (auto simp add: Varint_decode_loop.simps [of buffer offset val shift bytesRead] Let_def)
    from sh c inb "1.prems"(1)
    have rec: "Varint_decode_loop buffer offset ?v (shift + 7) (bytesRead + 1) = Inr (v, n)"
      by (simp add: Varint_decode_loop.simps [of buffer offset val shift bytesRead] Let_def)
    show ?thesis
      using "1.IH" [OF inb refl refl refl c sh rec _ "1.prems"(3) key] "1.prems"(2) by simp
  qed
qed

lemma Varint_decode_loop_success:
  "off + k < length buf \<Longrightarrow> \<not> continuation (buf ! (off + k)) \<Longrightarrow>
   (\<forall>i. br \<le> i \<and> i < k \<longrightarrow> continuation (buf ! (off + i))) \<Longrightarrow>
   shift = 7 * br \<Longrightarrow> br \<le> k \<Longrightarrow> k < 6 \<Longrightarrow>
   \<exists>v. Varint_decode_loop buf off val shift br = Inr (v, k + 1)"
proof (induction buf off val shift br rule: Varint_decode_loop.induct)
  case (1 buffer offset val shift bytesRead)
  from "1.prems" have inb: "\<not> offset + bytesRead \<ge> length buffer" by simp
  show ?case
  proof (cases "bytesRead = k")
    case True
    with "1.prems" have "buffer ! (offset + bytesRead) AND 0x80 = 0"
      by (simp add: continuation_def)
    with inb True show ?thesis
      by (subst Varint_decode_loop.simps) (simp add: Let_def)
  next
    case False
    with "1.prems" have lt: "bytesRead < k" by simp
    with "1.prems" have c: "buffer ! (offset + bytesRead) AND 0x80 \<noteq> 0"
      by (simp add: continuation_def)
    from lt "1.prems" have sh: "\<not> shift + 7 > 35" by simp
    let ?v = "val OR push_bit (shift mod 32) (ucast (buffer ! (offset + bytesRead) AND 0x7f))"
    have "\<exists>v. Varint_decode_loop buffer offset ?v (shift + 7) (bytesRead + 1) = Inr (v, k + 1)"
      using "1.IH" [OF inb refl refl refl c sh] "1.prems" lt by simp
    with inb c sh show ?thesis
      by (simp add: Varint_decode_loop.simps [of buffer offset val shift bytesRead] Let_def)
  qed
qed

text \<open>
  The outcomes of \<open>Varint.decode\<close>. It fails with \<open>VarintOverflow\<close> when the six bytes
  from the offset on all carry the continuation bit; it fails with \<open>Truncated\<close> when the
  buffer ends, after at most five continuation bytes, before a terminator; when a
  terminator is among the first six bytes it returns; and whenever it returns
  \<open>(value, bytesRead)\<close>, \<open>bytesRead\<close> is the position of the first terminator plus one,
  at most six, and for up to five bytes \<open>value\<close> is the little-endian sum of the 7-bit
  payloads, cut to 32 bits.
\<close>

lemma Varint_decode_outcomes:
  "(off + 6 \<le> length buf \<and> (\<forall>i<6. continuation (buf ! (off + i)))
      \<longrightarrow> Varint_decode buf off = Inl VarintOverflow) \<and>
   (length buf - off < 6 \<and> (\<forall>i. off + i < length buf \<longrightarrow> continuation (buf ! (off + i)))
      \<longrightarrow> Varint_decode buf off = Inl Truncated) \<and>
   (k < 6 \<and> off + k < length buf \<and> \<not> continuation (buf ! (off + k)) \<and>
    (\<forall>i<k. continuation (buf ! (off + i)))
      \<longrightarrow> (\<exists>v. Varint_decode buf off = Inr (v, k + 1))) \<and>
   (Varint_decode buf off = Inr (v, n)
      \<longrightarrow> 1 \<le> n \<and> n \<le> 6 \<and> off + n \<le> length buf \<and>
          \<not> continuation (buf ! (off + n - 1)) \<and>
          (\<forall>i<n - 1. continuation (buf ! (off + i))) \<and>
          (n \<le> 5 \<longrightarrow> v = leb_payload (take n (drop off buf)) mod 2 ^ 32))"
proof (intro conjI impI)
  assume "off + 6 \<le> length buf \<and> (\<forall>i<6. continuation (buf ! (off + i)))"
  then show "Varint_decode buf off = Inl VarintOverflow"
    unfolding Varint_decode_def by (intro Varint_decode_loop_overflow) simp_all
next
  assume a: "length buf - off < 6 \<and> (\<forall>i. off + i < length buf \<longrightarrow> continuation (buf ! (off + i)))"
  then have "0 + 7 * (length buf - (off + 0)) \<le> 35" by simp
  with a show "Varint_decode buf off = Inl Truncated"
    unfolding Varint_decode_def by (intro Varint_decode_loop_truncated) simp_all
next
  assume "k < 6 \<and> off + k < length buf \<and> \<not> continuation (buf ! (off + k)) \<and>
    (\<forall>i<k. continuation (buf ! (off + i)))"
  then show "\<exists>v. Varint_decode buf off = Inr (v, k + 1)"
    unfolding Varint_decode_def by (intro Varint_decode_loop_success) simp_all
next
  assume r: "Varint_decode buf off = Inr (v, n)"
  then have l: "Varint_decode_loop buf off 0 0 0 = Inr (v, n)" by (simp add: Varint_decode_def)
  from Varint_decode_loop_Inr [OF l] have
    f: "0 < n" "off + n \<le> length buf" "\<not> continuation (buf ! (off + n - 1))"
       "\<forall>i. 0 \<le> i \<and> i < n - 1 \<longrightarrow> continuation (buf ! (off + i))" "0 + 7 * (n - 0 - 1) \<le> 35"
    by simp_all
  from f show "1 \<le> n" by simp
  from f show "n \<le> 6" by simp
  from f show "off + n \<le> length buf" by simp
  from f show "\<not> continuation (buf ! (off + n - 1))" by simp
  from f show "\<forall>i<n - 1. continuation (buf ! (off + i))" by simp
  assume "n \<le> 5"
  from Varint_decode_loop_value [OF l _ this] show "v = leb_payload (take n (drop off buf)) mod 2 ^ 32"
    by simp
qed

lemma Varint_decode_outcomes_example:
  "Varint_decode [0x80, 0x80, 0x80, 0x80, 0x80, 0x80, 0x01] 0 = Inl VarintOverflow \<and>
   Varint_decode [0x05, 0xAC] 1 = Inl Truncated \<and>
   Varint_decode [0xAC, 0x02] 0 = Inr (300, 2) \<and>
   leb_payload [0xAC, 0x02] mod 2 ^ 32 = 300"
proof -
  let ?six = "[0x80, 0x80, 0x80, 0x80, 0x80, 0x80, 0x01] :: buffer"
  have h1: "0 + 6 \<le> length ?six \<and> (\<forall>i<6. continuation (?six ! (0 + i)))"
  proof -
    have "{..<6::nat} = {0, 1, 2, 3, 4, 5}" by auto
    then have "(\<forall>i<6. continuation (?six ! i)) = (\<forall>i\<in>{0, 1, 2, 3, 4, 5::nat}. continuation (?six ! i))"
      by (metis lessThan_iff)
    then show ?thesis by (simp add: continuation_def)
  qed
  have h2: "length [0x05, 0xAC :: byte] - 1 < 6 \<and>
            (\<forall>i. 1 + i < length [0x05, 0xAC :: byte] \<longrightarrow> continuation ([0x05, 0xAC] ! (1 + i)))"
    by (simp add: continuation_def)
  have r: "Varint_decode [0xAC, 0x02] 0 = Inr (300, 2)"
    by (simp add: Varint_decode_def Varint_decode_loop.simps)
  from Varint_decode_outcomes [of 0 ?six 0 0 0] h1
  have a: "Varint_decode ?six 0 = Inl VarintOverflow" by blast
  from Varint_decode_outcomes [of 1 "[0x05, 0xAC]" 0 0 0] h2
  have b: "Varint_decode [0x05, 0xAC] 1 = Inl Truncated" by blast
  from Varint_decode_outcomes [of 0 "[0xAC, 0x02]" 0 300 2] r
  have c: "300 = leb_payload (take 2 (drop 0 [0xAC, 0x02])) mod 2 ^ 32" by simp
  have "take 2 (drop 0 [0xAC, 0x02 :: byte]) = [0xAC, 0x02]" by simp
  with c have d: "leb_payload [0xAC, 0x02] mod 2 ^ 32 = 300" by (simp only:)
  from a b r d show ?thesis by (intro conjI)
qed

text \<open>
  Claim C5 fails on the code at a six-byte input. After the fifth continuation byte
  \<open>shift\<close> is 35, the test \<open>shift > 35\<close> is false, and a sixth byte is read and
  shifted by \<open>35 mod 32 = 3\<close>: five bytes \<open>0x80\<close> and a terminator \<open>0x01\<close>, which denote
  \<open>2\<^sup>3\<^sup>5\<close>, decode to \<open>(8, 6)\<close> with no \<open>VarintOverflow\<close>.
\<close>

theorem Varint_decode_accepts_six_bytes:
  "Varint_decode [0x80, 0x80, 0x80, 0x80, 0x80, 0x01] 0 = Inr (8, 6) \<and>
   leb_payload [0x80, 0x80, 0x80, 0x80, 0x80, 0x01] = 2 ^ 35"
  by (simp add: Varint_decode_def Varint_decode_loop.simps)

section \<open>Properties of the timestamp codec\<close>

text \<open>
  Claim C9. \<open>TimestampCodec.decode\<close> of a buffer shorter than 8 bytes, empty or
  not, returns the empty list and raises nothing.
\<close>

theorem TimestampCodec_decode_short_buffer:
  "length buffer < 8 \<Longrightarrow> TimestampCodec_decode rt buffer = Inr []"
  by (simp add: TimestampCodec_decode_def)

theorem TimestampCodec_decode_short_buffer_witness:
  "\<forall>rt. TimestampCodec_decode rt [0x00, 0x10, 0xA5, 0xD4, 0xE8, 0x00, 0x00] = Inr []"
proof
  fix rt
  have "length [0x00, 0x10, 0xA5, 0xD4, 0xE8, 0x00, 0x00 :: byte] < 8" by simp
  from TimestampCodec_decode_short_buffer [OF this]
  show "TimestampCodec_decode rt [0x00, 0x10, 0xA5, 0xD4, 0xE8, 0x00, 0x00] = Inr []" .
qed

section \<open>Properties of the enum codec\<close>

lemma le_bytes_numeral [simp]:
  "le_bytes (numeral k) v = of_nat (v mod 256) # le_bytes (pred_numeral k) (v div 256)"
  by (simp only: numeral_eq_Suc [of k] le_bytes.simps)

text \<open>
  Nibble packing as the specification words it: two 4-bit values per byte, the high
  nibble first; an odd last value fills the high nibble of a final byte.
\<close>

fun nibble_pack :: "byte list \<Rightarrow> buffer" where
  "nibble_pack [] = []"
| "nibble_pack [a] = [push_bit 4 a]"
| "nibble_pack (a # b # rest) = (push_bit 4 a OR b) # nibble_pack rest"

lemma length_nibble_pack: "length (nibble_pack vs) = (length vs + 1) div 2"
  by (induction vs rule: nibble_pack.induct) simp_all

lemma nibble_pack_snoc_even:
  "even (length vs) \<Longrightarrow> nibble_pack (vs @ [v]) = nibble_pack vs @ [push_bit 4 v]"
  by (induction vs rule: nibble_pack.induct) simp_all

lemma nibble_pack_snoc_odd:
  "odd (length vs) \<Longrightarrow>
   nibble_pack (vs @ [v]) = (nibble_pack vs)[length vs div 2 := nibble_pack vs ! (length vs div 2) OR v]"
  by (induction vs rule: nibble_pack.induct) simp_all

definition pack_step :: "byte list \<Rightarrow> buffer \<Rightarrow> nat \<Rightarrow> buffer" where
  "pack_step vs packed i =
     (let val = vs ! i
      in if i mod 2 = 0 then packed[i div 2 := push_bit 4 val]
         else packed[i div 2 := packed ! (i div 2) OR val])"

lemma pack_fold:
  "n \<le> length vs \<Longrightarrow> (n + 1) div 2 \<le> m \<Longrightarrow>
   foldl (pack_step vs) (replicate m 0) [0..<n] =
     nibble_pack (take n vs) @ replicate (m - (n + 1) div 2) 0"
proof (induction n)
  case 0
  show ?case by simp
next
  case (Suc n)
  let ?P = "nibble_pack (take n vs)"
  have lenP: "length ?P = (n + 1) div 2" using Suc.prems by (simp add: length_nibble_pack)
  have tk: "take (Suc n) vs = take n vs @ [vs ! n]"
    using Suc.prems by (simp add: take_Suc_conv_app_nth)
  have ih: "foldl (pack_step vs) (replicate m 0) [0..<n] = ?P @ replicate (m - (n + 1) div 2) 0"
    using Suc by simp
  have st: "foldl (pack_step vs) (replicate m 0) [0..<Suc n] =
            pack_step vs (?P @ replicate (m - (n + 1) div 2) 0) n"
    by (simp add: ih)
  show ?case
  proof (cases "even n")
    case True
    then obtain h where h: "n = 2 * h" by (elim evenE)
    have d1: "(n + 1) div 2 = h" and d2: "(Suc n + 1) div 2 = Suc h" and d3: "n div 2 = h"
      by (simp_all add: h)
    from Suc.prems(2) have hm: "Suc h \<le> m" by (simp only: d2)
    define k where "k = m - Suc h"
    from hm have k: "m - h = Suc k" by (simp add: k_def)
    have np: "nibble_pack (take (Suc n) vs) = ?P @ [push_bit 4 (vs ! n)]"
      using True Suc.prems by (simp add: tk nibble_pack_snoc_even)
    have lp: "length ?P = h" by (simp only: lenP d1)
    have "foldl (pack_step vs) (replicate m 0) [0..<Suc n] = pack_step vs (?P @ replicate (Suc k) 0) n"
      by (simp only: st d1 k)
    also have "\<dots> = (?P @ 0 # replicate k 0)[length ?P := push_bit 4 (vs ! n)]"
      by (simp add: pack_step_def lp d3) (simp add: h)
    also have "\<dots> = ?P @ push_bit 4 (vs ! n) # replicate k 0"
      by (rule list_update_length)
    also have "\<dots> = (?P @ [push_bit 4 (vs ! n)]) @ replicate k 0" by simp
    also have "\<dots> = nibble_pack (take (Suc n) vs) @ replicate (m - (Suc n + 1) div 2) 0"
      by (simp only: np d2 k_def)
    finally show ?thesis .
  next
    case False
    then obtain h where h: "n = 2 * h + 1" by (elim oddE)
    have d1: "(n + 1) div 2 = Suc h" and d2: "(Suc n + 1) div 2 = Suc h" and d3: "n div 2 = h"
      by (simp_all add: h)
    have lp: "length ?P = Suc h" by (simp only: lenP d1)
    have ln: "length (take n vs) = n" using Suc.prems by simp
    have np: "nibble_pack (take (Suc n) vs) = ?P[h := ?P ! h OR vs ! n]"
      using False Suc.prems nibble_pack_snoc_odd [of "take n vs" "vs ! n"] by (simp add: tk ln d3)
    have nm: "n mod 2 \<noteq> 0" by (simp add: h)
    have "foldl (pack_step vs) (replicate m 0) [0..<Suc n] =
          pack_step vs (?P @ replicate (m - Suc h) 0) n"
      by (simp only: st d1)
    also have "\<dots> = (?P @ replicate (m - Suc h) 0)[h := (?P @ replicate (m - Suc h) 0) ! h OR vs ! n]"
      using nm by (simp add: pack_step_def Let_def d3)
    also have "\<dots> = ?P[h := ?P ! h OR vs ! n] @ replicate (m - Suc h) 0"
      using lp by (simp add: list_update_append nth_append)
    also have "\<dots> = nibble_pack (take (Suc n) vs) @ replicate (m - (Suc n + 1) div 2) 0"
      by (simp only: np d2)
    finally show ?thesis .
  qed
qed

lemma EnumCodec_pack_eq:
  "EnumCodec_pack unique values = nibble_pack (map (\<lambda>v. of_nat (dict_index unique v)) values)"
proof -
  let ?vs = "map (\<lambda>v. of_nat (dict_index unique v) :: byte) values"
  have "EnumCodec_pack unique values =
        foldl (pack_step ?vs) (replicate ((length values + 1) div 2) 0) [0..<length values]"
    unfolding EnumCodec_pack_def by (rule foldl_cong) (simp_all add: pack_step_def)
  also have "\<dots> = nibble_pack (take (length values) ?vs) @
                    replicate ((length values + 1) div 2 - (length values + 1) div 2) 0"
    by (rule pack_fold) simp_all
  finally show ?thesis by simp
qed



lemma ascii_ABC: "ascii ''A'' = [0x41]" "ascii ''B'' = [0x42]" "ascii ''C'' = [0x43]"
  by (simp_all add: ascii_def)

text \<open>
  Claim C6, as amended. When the column is non-empty and has at most 16 distinct
  values, \<open>EnumCodec.encode\<close> emits the count prefix, the dictionary, and the
  dictionary indices packed as 4-bit nibbles, two per byte, high nibble first. For
  \<open>["A","B","A","C","B"]\<close> the index bytes are the three bytes \<open>0x01 0x02 0x10\<close>
  (nibbles 0,1 | 0,2 | 1,0), not the two bytes \<open>0x01 0x20\<close> of the specification's
  example.
\<close>

theorem EnumCodec_encode_nibbles:
  "(values \<noteq> [] \<and> length values < 2 ^ 32 \<and> length (build_dictionary values) \<le> 16 \<and>
    mapE (enum_dict_entry rt) (build_dictionary values) = Inr entries
    \<longrightarrow> EnumCodec_encode rt values =
          Inr (le_bytes 4 (length values) @
               of_nat (length (build_dictionary values)) # concat entries @
               nibble_pack (map (\<lambda>v. of_nat (dict_index (build_dictionary values) v)) values))) \<and>
   (utf8_encode rt (ascii ''A'') = [0x41] \<and> utf8_encode rt (ascii ''B'') = [0x42] \<and>
    utf8_encode rt (ascii ''C'') = [0x43]
    \<longrightarrow> EnumCodec_encode rt
            [Some (ascii ''A''), Some (ascii ''B''), Some (ascii ''A''), Some (ascii ''C''),
             Some (ascii ''B'')] =
          Inr ([0x05, 0x00, 0x00, 0x00] @ [0x03] @ [0x01, 0x41, 0x01, 0x42, 0x01, 0x43] @
               [0x01, 0x02, 0x10]))"
proof (intro conjI impI)
  assume a: "values \<noteq> [] \<and> length values < 2 ^ 32 \<and> length (build_dictionary values) \<le> 16 \<and>
    mapE (enum_dict_entry rt) (build_dictionary values) = Inr entries"
  then show "EnumCodec_encode rt values =
          Inr (le_bytes 4 (length values) @
               of_nat (length (build_dictionary values)) # concat entries @
               nibble_pack (map (\<lambda>v. of_nat (dict_index (build_dictionary values) v)) values))"
    by (simp add: EnumCodec_encode_def writeUInt32LE_def Let_def EnumCodec_pack_eq
             del: le_bytes_numeral)
next
  assume "utf8_encode rt (ascii ''A'') = [0x41] \<and> utf8_encode rt (ascii ''B'') = [0x42] \<and>
    utf8_encode rt (ascii ''C'') = [0x43]"
  then have u: "utf8_encode rt [0x41] = [0x41]" "utf8_encode rt [0x42] = [0x42]"
    "utf8_encode rt [0x43] = [0x43]"
    by (simp_all add: ascii_ABC)
  let ?vals = "[Some [0x41], Some [0x42], Some [0x41], Some [0x43], Some [0x42::16 word]]"
  have "EnumCodec_encode rt ?vals = Inr [0x05, 0x00, 0x00, 0x00, 0x03, 0x01, 0x41, 0x01, 0x42,
          0x01, 0x43, 0x01, 0x02, 0x10]"
    using u by (simp add: EnumCodec_encode_def writeUInt32LE_def Let_def EnumCodec_pack_eq
          build_dictionary_def dict_index_def enum_dict_entry_def)
  then show "EnumCodec_encode rt
            [Some (ascii ''A''), Some (ascii ''B''), Some (ascii ''A''), Some (ascii ''C''),
             Some (ascii ''B'')] =
          Inr ([0x05, 0x00, 0x00, 0x00] @ [0x03] @ [0x01, 0x41, 0x01, 0x42, 0x01, 0x43] @
               [0x01, 0x02, 0x10])"
    by (simp add: ascii_ABC)
qed

lemma example_utf8_ABC:
  "utf8_encode example_runtime (ascii ''A'') = [0x41] \<and>
   utf8_encode example_runtime (ascii ''B'') = [0x42] \<and>
   utf8_encode example_runtime (ascii ''C'') = [0x43]"
  by (simp add: example_runtime_def ascii_ABC)

theorem EnumCodec_encode_nibbles_witness:
  "EnumCodec_encode example_runtime
     [Some (ascii ''A''), Some (ascii ''B''), Some (ascii ''A''), Some (ascii ''C''), Some (ascii ''B'')] =
   Inr ([0x05, 0x00, 0x00, 0x00] @ [0x03] @ [0x01, 0x41, 0x01, 0x42, 0x01, 0x43] @ [0x01, 0x02, 0x10]) \<and>
   EnumCodec_encode example_runtime [Some (ascii ''A''), None] =
   Inr (le_bytes 4 2 @ 2 # concat [[0x01, 0x41], [0xFF]] @ nibble_pack [0, 1])"
proof
  from EnumCodec_encode_nibbles [of "[]" example_runtime "[]"] example_utf8_ABC
  show "EnumCodec_encode example_runtime
     [Some (ascii ''A''), Some (ascii ''B''), Some (ascii ''A''), Some (ascii ''C''), Some (ascii ''B'')] =
   Inr ([0x05, 0x00, 0x00, 0x00] @ [0x03] @ [0x01, 0x41, 0x01, 0x42, 0x01, 0x43] @ [0x01, 0x02, 0x10])"
    by blast
next
  let ?vals = "[Some (ascii ''A''), None]"
  have d: "build_dictionary ?vals = ?vals"
    by (simp add: build_dictionary_def)
  have h: "?vals \<noteq> [] \<and> length ?vals < 2 ^ 32 \<and> length (build_dictionary ?vals) \<le> 16 \<and>
    mapE (enum_dict_entry example_runtime) (build_dictionary ?vals) = Inr [[0x01, 0x41], [0xFF]]"
    by (simp add: build_dictionary_def enum_dict_entry_def example_runtime_def ascii_ABC)
  have i: "map (\<lambda>v. of_nat (dict_index (build_dictionary ?vals) v) :: byte) ?vals = [0, 1]"
    by (simp add: build_dictionary_def dict_index_def)
  from EnumCodec_encode_nibbles [of ?vals example_runtime "[[0x01, 0x41], [0xFF]]"] h
  have "EnumCodec_encode example_runtime ?vals =
          Inr (le_bytes 4 (length ?vals) @
               of_nat (length (build_dictionary ?vals)) # concat [[0x01, 0x41], [0xFF]] @
               nibble_pack (map (\<lambda>v. of_nat (dict_index (build_dictionary ?vals) v)) ?vals))"
    by blast
  then show "EnumCodec_encode example_runtime ?vals =
     Inr (le_bytes 4 2 @ 2 # concat [[0x01, 0x41], [0xFF]] @ nibble_pack [0, 1])"
    by (simp add: build_dictionary_def dict_index_def)
qed

theorem EnumCodec_encode_spec_example_counterexample:
  "EnumCodec_encode example_runtime
     [Some (ascii ''A''), Some (ascii ''B''), Some (ascii ''A''), Some (ascii ''C''), Some (ascii ''B'')] \<noteq>
   Inr ([0x05, 0x00, 0x00, 0x00] @ [0x03] @ [0x01, 0x41, 0x01, 0x42, 0x01, 0x43] @ [0x01, 0x20])"
proof -
  have "EnumCodec_encode example_runtime
     [Some [0x41], Some [0x42], Some [0x41], Some [0x43], Some [0x42]] =
     Inr [0x05, 0x00, 0x00, 0x00, 0x03, 0x01, 0x41, 0x01, 0x42, 0x01, 0x43, 0x01, 0x02, 0x10]"
    by (simp add: EnumCodec_encode_def writeUInt32LE_def Let_def EnumCodec_pack_eq
          build_dictionary_def dict_index_def enum_dict_entry_def example_runtime_def)
  then show ?thesis by (simp add: ascii_ABC)
qed

section \<open>Properties of the adaptive string codec\<close>

text \<open>
  The bytes \<open>Varint.encode\<close> returns for a natural number, one length-prefixed
  dictionary or raw entry, and one run of the RLE index stream.
\<close>

definition varint_bytes :: "nat \<Rightarrow> buffer" where
  "varint_bytes v = Varint_encode_loop (word_of_nat v) []"

definition entry_bytes :: "runtime \<Rightarrow> jsstring option \<Rightarrow> buffer" where
  "entry_bytes rt str =
     (case str of
        None \<Rightarrow> varint_bytes 0
      | Some s \<Rightarrow> varint_bytes (length (utf8_encode rt s) + 1) @ utf8_encode rt s)"

definition run_bytes :: "nat \<times> nat \<Rightarrow> buffer" where
  "run_bytes r = varint_bytes (fst r) @ varint_bytes (snd r)"

lemma Varint_encode_nat: "Varint_encode (int v) = Inr (varint_bytes v)"
  by (simp add: Varint_encode_def varint_bytes_def)

lemma Varint_encode_0: "Varint_encode 0 = Inr (varint_bytes 0)"
  using Varint_encode_nat [of 0] by simp

lemma Varint_encode_nat_Suc: "Varint_encode (int v + 1) = Inr (varint_bytes (v + 1))"
  using Varint_encode_nat [of "v + 1"] by (simp add: add.commute)

lemma mapE_Inr: "(\<And>x. x \<in> set xs \<Longrightarrow> f x = Inr (g x)) \<Longrightarrow> mapE f xs = Inr (map g xs)"
  by (induction xs) simp_all

lemma mapE_pure [simp]: "mapE (\<lambda>x. Inr (g x)) xs = Inr (map g xs)"
  by (induction xs) simp_all

lemma string_entry_bytes: "string_entry rt str = Inr (entry_bytes rt str)"
  by (cases str)
     (simp_all add: string_entry_def entry_bytes_def Varint_encode_0 Varint_encode_nat_Suc Let_def)

lemma rle_entry_bytes: "rle_entry r = Inr (run_bytes r)"
  by (simp add: rle_entry_def run_bytes_def Varint_encode_nat)

lemma build_dictionary_foldl:
  "distinct acc \<Longrightarrow>
   distinct (foldl (\<lambda>unique x. if x \<in> set unique then unique else unique @ [x]) acc xs) \<and>
   set (foldl (\<lambda>unique x. if x \<in> set unique then unique else unique @ [x]) acc xs) = set acc \<union> set xs"
  by (induction xs arbitrary: acc) auto

lemma distinct_build_dictionary: "distinct (build_dictionary xs)"
  using build_dictionary_foldl [of "[]" xs] by (simp add: build_dictionary_def)

lemma set_build_dictionary: "set (build_dictionary xs) = set xs"
  using build_dictionary_foldl [of "[]" xs] by (simp add: build_dictionary_def)

lemma length_build_dictionary: "length (build_dictionary xs) = card (set xs)"
  using distinct_card [OF distinct_build_dictionary [of xs]] by (simp add: set_build_dictionary)

lemma dict_index_nth: "x \<in> set unique \<Longrightarrow> dict_index unique x < length unique \<and> unique ! dict_index unique x = x"
  unfolding dict_index_def
  by (induction unique) auto

lemma rle_loop_expand:
  "concat (map (\<lambda>r. replicate (snd r) (fst r)) (rle_loop cur run indices)) = replicate run cur @ indices"
proof (induction indices arbitrary: cur run)
  case Nil
  show ?case by simp
next
  case (Cons i indices)
  show ?case
  proof (cases "i = cur")
    case True
    then show ?thesis using Cons [of cur "run + 1"] by (simp add: replicate_append_same)
  next
    case False
    then show ?thesis using Cons [of i 1] by simp
  qed
qed

lemma rle_runs_expand: "concat (map (\<lambda>r. replicate (snd r) (fst r)) (rle_runs indices)) = indices"
  by (cases indices) (simp_all add: rle_runs_def rle_loop_expand)

text \<open>
  Claim C4. For a non-empty column of strings and nulls, with \<open>u\<close> distinct values
  among \<open>n\<close>: when \<open>u \<ge> 0.7 n\<close> the output is the mode byte \<open>0x00\<close> and, per value,
  \<open>Varint(0)\<close> for null or \<open>Varint(byteLen + 1)\<close> and the UTF-8 bytes. Otherwise it is
  \<open>0x02\<close> when the RLE stream of \<open>(index, runLength)\<close> pairs is strictly shorter than
  the stream of one index per position, else \<open>0x01\<close>, followed by the dictionary
  header and the chosen stream. The indices point at the values in the dictionary, and
  the runs expand to the indices.
\<close>

theorem AdaptiveStringCodec_encode_modes:
  "strings \<noteq> [] \<longrightarrow>
     length (build_dictionary strings) = card (set strings) \<and>
     map (\<lambda>i. build_dictionary strings ! i) (map (dict_index (build_dictionary strings)) strings) = strings \<and>
     concat (map (\<lambda>r. replicate (snd r) (fst r))
               (rle_runs (map (dict_index (build_dictionary strings)) strings))) =
       map (dict_index (build_dictionary strings)) strings \<and>
     (7 * length strings \<le> 10 * card (set strings) \<longrightarrow>
        AdaptiveStringCodec_encode rt strings = Inr (0x00 # concat (map (entry_bytes rt) strings))) \<and>
     (10 * card (set strings) < 7 * length strings \<longrightarrow>
        (let unique = build_dictionary strings;
             dictHeader = varint_bytes (length unique) @ concat (map (entry_bytes rt) unique);
             indices = map (dict_index unique) strings;
             standard = concat (map varint_bytes indices);
             rle = concat (map run_bytes (rle_runs indices))
         in AdaptiveStringCodec_encode rt strings =
              Inr (if length rle < length standard then 0x02 # dictHeader @ rle
                   else 0x01 # dictHeader @ standard)))"
proof (intro impI conjI)
  show "length (build_dictionary strings) = card (set strings)" by (rule length_build_dictionary)
next
  show "map (\<lambda>i. build_dictionary strings ! i) (map (dict_index (build_dictionary strings)) strings) = strings"
    by (simp add: map_idI dict_index_nth set_build_dictionary)
next
  show "concat (map (\<lambda>r. replicate (snd r) (fst r))
               (rle_runs (map (dict_index (build_dictionary strings)) strings))) =
       map (dict_index (build_dictionary strings)) strings"
    by (rule rle_runs_expand)
next
  assume "strings \<noteq> []" and "7 * length strings \<le> 10 * card (set strings)"
  then show "AdaptiveStringCodec_encode rt strings = Inr (0x00 # concat (map (entry_bytes rt) strings))"
    by (simp add: AdaptiveStringCodec_encode_def Let_def length_build_dictionary
          mapE_Inr [of _ _ "entry_bytes rt"] string_entry_bytes)
next
  assume ne: "strings \<noteq> []" and lt: "10 * card (set strings) < 7 * length strings"
  have m1: "mapE (string_entry rt) xs = Inr (map (entry_bytes rt) xs)" for xs
    by (rule mapE_Inr) (rule string_entry_bytes)
  have m2: "mapE (\<lambda>idx. Varint_encode (int idx)) xs = Inr (map varint_bytes xs)" for xs
    by (rule mapE_Inr) (rule Varint_encode_nat)
  have m3: "mapE rle_entry xs = Inr (map run_bytes xs)" for xs
    by (rule mapE_Inr) (rule rle_entry_bytes)
  from ne lt show "let unique = build_dictionary strings;
             dictHeader = varint_bytes (length unique) @ concat (map (entry_bytes rt) unique);
             indices = map (dict_index unique) strings;
             standard = concat (map varint_bytes indices);
             rle = concat (map run_bytes (rle_runs indices))
         in AdaptiveStringCodec_encode rt strings =
              Inr (if length rle < length standard then 0x02 # dictHeader @ rle
                   else 0x01 # dictHeader @ standard)"
    by (simp add: AdaptiveStringCodec_encode_def Let_def length_build_dictionary
          m1 m2 m3 Varint_encode_nat)
qed


lemma ascii_AB: "ascii ''A'' = [0x41]" "ascii ''B'' = [0x42]"
  by (simp_all add: ascii_def)

theorem AdaptiveStringCodec_encode_modes_witness:
  "AdaptiveStringCodec_encode example_runtime [Some (ascii ''A''), None] =
     Inr [0x00, 0x02, 0x41, 0x00] \<and>
   AdaptiveStringCodec_encode example_runtime
     [Some (ascii ''A''), Some (ascii ''A''), Some (ascii ''A''), Some (ascii ''A'')] =
     Inr [0x02, 0x01, 0x02, 0x41, 0x00, 0x04] \<and>
   AdaptiveStringCodec_encode example_runtime
     [Some (ascii ''A''), Some (ascii ''B''), Some (ascii ''A''), Some (ascii ''B'')] =
     Inr [0x01, 0x02, 0x02, 0x41, 0x02, 0x42, 0x00, 0x01, 0x00, 0x01]"
proof (intro conjI)
  let ?raw = "[Some (ascii ''A''), None]"
  have c: "card (set ?raw) = 2" by simp
  from AdaptiveStringCodec_encode_modes [of ?raw example_runtime]
  have "AdaptiveStringCodec_encode example_runtime ?raw =
        Inr (0x00 # concat (map (entry_bytes example_runtime) ?raw))"
    by (simp only: c) simp
  then show "AdaptiveStringCodec_encode example_runtime ?raw = Inr [0x00, 0x02, 0x41, 0x00]"
    by (simp add: entry_bytes_def varint_bytes_def Varint_encode_loop.simps example_runtime_def ascii_AB)
next
  let ?rle = "[Some (ascii ''A''), Some (ascii ''A''), Some (ascii ''A''), Some (ascii ''A'')]"
  have c: "card (set ?rle) = 1" by simp
  from AdaptiveStringCodec_encode_modes [of ?rle example_runtime]
  have "let unique = build_dictionary ?rle;
             dictHeader = varint_bytes (length unique) @ concat (map (entry_bytes example_runtime) unique);
             indices = map (dict_index unique) ?rle;
             standard = concat (map varint_bytes indices);
             rle = concat (map run_bytes (rle_runs indices))
         in AdaptiveStringCodec_encode example_runtime ?rle =
              Inr (if length rle < length standard then 0x02 # dictHeader @ rle
                   else 0x01 # dictHeader @ standard)"
    by (simp only: c) simp
  then show "AdaptiveStringCodec_encode example_runtime ?rle = Inr [0x02, 0x01, 0x02, 0x41, 0x00, 0x04]"
    by (simp add: build_dictionary_def Let_def dict_index_def rle_runs_def run_bytes_def entry_bytes_def varint_bytes_def
          Varint_encode_loop.simps example_runtime_def ascii_AB)
next
  let ?std = "[Some (ascii ''A''), Some (ascii ''B''), Some (ascii ''A''), Some (ascii ''B'')]"
  have "set ?std = {Some [0x41], Some [0x42]}" by (auto simp add: ascii_AB)
  then have c: "card (set ?std) = 2" by simp
  from AdaptiveStringCodec_encode_modes [of ?std example_runtime]
  have "let unique = build_dictionary ?std;
             dictHeader = varint_bytes (length unique) @ concat (map (entry_bytes example_runtime) unique);
             indices = map (dict_index unique) ?std;
             standard = concat (map varint_bytes indices);
             rle = concat (map run_bytes (rle_runs indices))
         in AdaptiveStringCodec_encode example_runtime ?std =
              Inr (if length rle < length standard then 0x02 # dictHeader @ rle
                   else 0x01 # dictHeader @ standard)"
    by (simp only: c) simp
  then show "AdaptiveStringCodec_encode example_runtime ?std =
     Inr [0x01, 0x02, 0x02, 0x41, 0x02, 0x42, 0x00, 0x01, 0x00, 0x01]"
    by (simp add: build_dictionary_def Let_def dict_index_def rle_runs_def run_bytes_def entry_bytes_def varint_bytes_def
          Varint_encode_loop.simps example_runtime_def ascii_AB)
qed

section \<open>Properties of the decoders' mode dispatch\<close>

lemma AdaptiveStringCodec_decode_unknown_mode:
  "mode \<noteq> 0x00 \<Longrightarrow> mode \<noteq> 0x01 \<Longrightarrow> mode \<noteq> 0x02 \<Longrightarrow>
   AdaptiveStringCodec_decode rt (mode # payload) = Inl (UnknownMode mode)"
  by (simp add: AdaptiveStringCodec_decode_def)

lemma NumberCodec_decode_other_mode:
  "mode \<noteq> 0x01 \<Longrightarrow> mode \<noteq> 0x02 \<Longrightarrow>
   NumberCodec_decode rt (mode # payload) = NumberCodec_decode_doubles rt (mode # payload) 1 []"
  by (simp add: NumberCodec_decode_def)

text \<open>
  Claim C8 holds for the adaptive string codec and fails for the number codec, whose
  \<open>decode\<close> takes every mode byte other than \<open>0x01\<close> and \<open>0x02\<close> for float mode: the
  payload \<open>[0x03]\<close> decodes to the empty list, and \<open>0x07\<close> followed by eight bytes
  decodes to one double.
\<close>

theorem NumberCodec_decode_accepts_unknown_mode:
  "NumberCodec_decode rt [0x03] = Inr [] \<and>
   NumberCodec_decode rt [0x07, 0, 0, 0, 0, 0, 0, 0xF0, 0x3F] =
     Inr [JNum (bits_double rt 0x3FF0000000000000)]"
  by (simp add: NumberCodec_decode_def NumberCodec_decode_doubles.simps)

section \<open>Properties of the nullable wrapper\<close>

text \<open>The number of set bits of a bitmap, over all of its bytes.\<close>

definition popcount :: "buffer \<Rightarrow> nat" where
  "popcount bitmap = sum_list (map (\<lambda>b. length (filter (bit b) [0..<8])) bitmap)"

lemma bitmap_bit_iff: "bitmap_bit bitmap i = bit (bitmap ! (i div 8)) (i mod 8)"
  by (simp add: bitmap_bit_def bit_iff_and_push_bit_not_eq_0)

lemma le_value_le_bytes: "le_value (le_bytes k v) = v mod 256 ^ k"
proof (induction k arbitrary: v)
  case 0
  show ?case by simp
next
  case (Suc k)
  have "unat (of_nat (v mod 256) :: byte) = v mod 256" by (simp add: unat_of_nat)
  with Suc show ?case by (simp add: mod_mult2_eq)
qed

lemma length_le_bytes [simp]: "length (le_bytes k v) = k"
  by (induction k arbitrary: v) simp_all

lemma foldl_count:
  "foldl (\<lambda>n i. if P i then n + 1 else n) a xs = a + length (filter P xs)"
  by (induction xs arbitrary: a) simp_all

lemma count_set_bits_filter:
  "count_set_bits bitmap n = length (filter (bitmap_bit bitmap) [0..<n])"
  by (simp add: count_set_bits_def foldl_count)

text \<open>The bitmap loop: after the rows below \<open>k\<close>, exactly their bits are set.\<close>

definition bitmap_step :: "jvalue list \<Rightarrow> buffer \<Rightarrow> nat \<Rightarrow> buffer" where
  "bitmap_step values bitmap i =
     (if values ! i \<noteq> MISSING
      then bitmap[i div 8 := bitmap ! (i div 8) OR push_bit (i mod 8) 1]
      else bitmap)"

lemma bitmap_step_bit:
  assumes "i div 8 < length bitmap" "j div 8 < length bitmap"
  shows "bitmap_bit (bitmap_step values bitmap i) j =
         (bitmap_bit bitmap j \<or> (j = i \<and> values ! i \<noteq> MISSING))"
proof (cases "values ! i \<noteq> MISSING")
  case False
  then show ?thesis by (simp add: bitmap_step_def)
next
  case True
  show ?thesis
  proof (cases "j div 8 = i div 8")
    case False
    then have "j \<noteq> i" by auto
    with False True assms show ?thesis by (simp add: bitmap_step_def bitmap_bit_iff)
  next
    case same: True
    have "j = i \<longleftrightarrow> j mod 8 = i mod 8"
      using same by (metis div_mult_mod_eq)
    moreover have "i mod 8 < 8" by simp
    ultimately show ?thesis
      using True same assms
      by (auto simp add: bitmap_step_def bitmap_bit_iff bit_simps)
  qed
qed

lemma length_bitmap_step [simp]: "length (bitmap_step values bitmap i) = length bitmap"
  by (simp add: bitmap_step_def)

lemma bitmap_fold:
  "k \<le> 8 * m \<Longrightarrow>
   length (foldl (bitmap_step values) (replicate m 0) [0..<k]) = m \<and>
   (\<forall>j. j div 8 < m \<longrightarrow>
      bitmap_bit (foldl (bitmap_step values) (replicate m 0) [0..<k]) j =
      (j < k \<and> values ! j \<noteq> MISSING))"
proof (induction k)
  case 0
  show ?case by (simp add: bitmap_bit_iff)
next
  case (Suc k)
  let ?bm = "foldl (bitmap_step values) (replicate m 0) [0..<k]"
  from Suc have ih: "length ?bm = m"
    "\<And>j. j div 8 < m \<Longrightarrow> bitmap_bit ?bm j = (j < k \<and> values ! j \<noteq> MISSING)"
    by simp_all
  from Suc.prems have kd: "k div 8 < m" by simp
  have st: "foldl (bitmap_step values) (replicate m 0) [0..<Suc k] = bitmap_step values ?bm k"
    by simp
  show ?case
  proof (intro conjI allI impI)
    show "length (foldl (bitmap_step values) (replicate m 0) [0..<Suc k]) = m"
      by (simp only: st length_bitmap_step ih)
  next
    fix j assume j: "j div 8 < m"
    have "bitmap_bit (bitmap_step values ?bm k) j =
          (bitmap_bit ?bm j \<or> (j = k \<and> values ! k \<noteq> MISSING))"
      by (rule bitmap_step_bit) (simp_all add: ih kd j)
    also have "\<dots> = (j < Suc k \<and> values ! j \<noteq> MISSING)"
      using ih(2) [OF j] by (auto simp add: less_Suc_eq)
    finally show "bitmap_bit (foldl (bitmap_step values) (replicate m 0) [0..<Suc k]) j =
      (j < Suc k \<and> values ! j \<noteq> MISSING)"
      by (simp only: st)
  qed
qed

lemma build_bitmap_eq:
  "build_bitmap values = foldl (bitmap_step values) (replicate ((length values + 7) div 8) 0) [0..<length values]"
  unfolding build_bitmap_def bitmap_step_def ..

lemma length_build_bitmap: "length (build_bitmap values) = (length values + 7) div 8"
  using bitmap_fold [of "length values" "(length values + 7) div 8" "values"]
  by (simp add: build_bitmap_eq)

lemma build_bitmap_bit:
  "j div 8 < (length values + 7) div 8 \<Longrightarrow>
   bitmap_bit (build_bitmap values) j = (j < length values \<and> values ! j \<noteq> MISSING)"
  using bitmap_fold [of "length values" "(length values + 7) div 8" "values"]
  by (simp add: build_bitmap_eq)


lemma popcount_snoc: "popcount (bitmap @ [b]) = popcount bitmap + length (filter (bit b) [0..<8])"
  by (simp add: popcount_def)

lemma popcount_filter: "popcount bitmap = length (filter (bitmap_bit bitmap) [0..<8 * length bitmap])"
proof (induction bitmap rule: rev_induct)
  case Nil
  show ?case by (simp add: popcount_def)
next
  case (snoc b bitmap)
  let ?k = "length bitmap"
  have sp: "[0..<8 * length (bitmap @ [b])] = [0..<8 * ?k] @ map (\<lambda>i. i + 8 * ?k) [0..<8]"
  proof -
    have "[0..<8 * ?k + 8] = [0..<8 * ?k] @ [8 * ?k..<8 * ?k + 8]"
      by (rule upt_add_eq_append) simp
    moreover have "[8 * ?k..<8 * ?k + 8] = map (\<lambda>i. i + 8 * ?k) [0..<8]"
      by (simp only: map_add_upt add.commute [of "8 * ?k" 8])
    moreover have "8 * length (bitmap @ [b]) = 8 * ?k + 8" by simp
    ultimately show ?thesis by (simp only:)
  qed
  have a: "filter (bitmap_bit (bitmap @ [b])) [0..<8 * ?k] = filter (bitmap_bit bitmap) [0..<8 * ?k]"
  proof (rule filter_cong [OF refl])
    fix j assume "j \<in> set [0..<8 * ?k]"
    then have "j div 8 < ?k" by simp
    then show "bitmap_bit (bitmap @ [b]) j = bitmap_bit bitmap j"
      by (simp add: bitmap_bit_iff nth_append)
  qed
  have b: "length (filter (bitmap_bit (bitmap @ [b])) (map (\<lambda>i. i + 8 * ?k) [0..<8])) =
           length (filter (bit b) [0..<8])"
  proof -
    have "filter ((bitmap_bit (bitmap @ [b])) \<circ> (\<lambda>i. i + 8 * ?k)) [0..<8] = filter (bit b) [0..<8]"
    proof (rule filter_cong [OF refl])
      fix i assume "i \<in> set [0..<8::nat]"
      then have "i < 8" by simp
      then show "(bitmap_bit (bitmap @ [b]) \<circ> (\<lambda>i. i + 8 * ?k)) i = bit b i"
        by (simp add: bitmap_bit_iff nth_append)
    qed
    then show ?thesis by (simp add: filter_map)
  qed
  have "length (filter (bitmap_bit (bitmap @ [b])) [0..<8 * length (bitmap @ [b])]) =
        length (filter (bitmap_bit (bitmap @ [b])) ([0..<8 * ?k] @ map (\<lambda>i. i + 8 * ?k) [0..<8]))"
    by (simp only: sp)
  also have "\<dots> = length (filter (bitmap_bit bitmap) [0..<8 * ?k]) + length (filter (bit b) [0..<8])"
    by (simp only: filter_append length_append a b)
  finally show ?case by (simp only: popcount_snoc snoc.IH)
qed

lemma popcount_count_set_bits:
  assumes "n \<le> 8 * length bitmap"
    and "\<And>j. n \<le> j \<Longrightarrow> j < 8 * length bitmap \<Longrightarrow> \<not> bitmap_bit bitmap j"
  shows "popcount bitmap = count_set_bits bitmap n"
proof -
  have "[0..<8 * length bitmap] = [0..<n] @ [n..<8 * length bitmap]"
    using assms(1) by (metis le_add_diff_inverse upt_add_eq_append zero_le)
  moreover have "filter (bitmap_bit bitmap) [n..<8 * length bitmap] = []"
    using assms(2) by (auto simp add: filter_empty_conv)
  ultimately show ?thesis by (simp add: popcount_filter count_set_bits_filter)
qed

lemma popcount_build_bitmap: "popcount (build_bitmap vs) = count_set_bits (build_bitmap vs) (length vs)"
proof (rule popcount_count_set_bits)
  show "length vs \<le> 8 * length (build_bitmap vs)" by (simp add: length_build_bitmap)
next
  fix j assume "length vs \<le> j" "j < 8 * length (build_bitmap vs)"
  then have "j div 8 < (length vs + 7) div 8" by (simp add: length_build_bitmap)
  from build_bitmap_bit [OF this] \<open>length vs \<le> j\<close> show "\<not> bitmap_bit (build_bitmap vs) j" by simp
qed

lemma count_set_bits_build_bitmap:
  "count_set_bits (build_bitmap vs) (length vs) = length (filter (\<lambda>val. val \<noteq> MISSING) vs)"
proof -
  have "filter (bitmap_bit (build_bitmap vs)) [0..<length vs] = filter (\<lambda>j. vs ! j \<noteq> MISSING) [0..<length vs]"
  proof (rule filter_cong [OF refl])
    fix j assume "j \<in> set [0..<length vs]"
    then have j: "j < length vs" by simp
    then have "j div 8 < (length vs + 7) div 8" by simp
    from build_bitmap_bit [OF this] j show "bitmap_bit (build_bitmap vs) j = (vs ! j \<noteq> MISSING)" by simp
  qed
  moreover have "length (filter (\<lambda>j. vs ! j \<noteq> MISSING) [0..<length vs]) =
                 length (filter (\<lambda>val. val \<noteq> MISSING) (map (\<lambda>j. vs ! j) [0..<length vs]))"
    by (simp add: filter_map comp_def)
  ultimately show ?thesis by (simp add: count_set_bits_filter map_nth)
qed

lemma readUInt32LE_le_bytes:
  "n < 2 ^ 32 \<Longrightarrow> readUInt32LE (le_bytes 4 n @ rest) 0 = Inr n"
  by (simp add: readUInt32LE_def le_value_le_bytes del: le_bytes_numeral)

lemma NullableCodecWrapper_decode_layout:
  assumes "n < 2 ^ 32" "n \<noteq> 0" "length bitmap = (n + 7) div 8"
  shows "NullableCodecWrapper_decode c (le_bytes 4 n @ bitmap @ payload) =
         bindE (decode c payload) (\<lambda>decodedNonNulls.
           if count_set_bits bitmap n \<noteq> length decodedNonNulls
           then Inl (BitmapMismatch (count_set_bits bitmap n) (length decodedNonNulls))
           else Inr (interleave bitmap decodedNonNulls n))"
  using assms
  by (simp add: NullableCodecWrapper_decode_def readUInt32LE_le_bytes Let_def del: le_bytes_numeral)

section \<open>Properties of the ZigZag varint on BigInt\<close>

lemma zigzag_nonneg: "0 \<le> zigzag v"
  by (simp add: zigzag_def xor_nonnegative_int_iff)

lemma and_127_int: "(z::int) AND 0x7f = z mod 128"
proof -
  have "(0x7f::int) = mask 7" by (simp add: mask_eq_exp_minus_1)
  then have "z AND 0x7f = take_bit 7 z" by (simp only: take_bit_eq_mask)
  then show ?thesis by (simp add: take_bit_int_def)
qed

lemma or_push_int:
  assumes "0 \<le> acc" "acc < 2 ^ s"
  shows "(acc::int) OR push_bit s x = acc + push_bit s x"
proof -
  from assms have "take_bit s acc = acc" by (simp add: take_bit_int_eq_self)
  then have nb: "bit acc n \<Longrightarrow> n < s" for n
    by (metis bit_take_bit_iff)
  have "\<not> bit acc n \<or> \<not> bit (push_bit s x) n" for n
    using nb [of n] by (auto simp add: bit_push_bit_iff)
  then show ?thesis by (simp add: disjunctive_add)
qed

lemma or_128_int: "0 \<le> b \<Longrightarrow> b < 128 \<Longrightarrow> (b::int) OR 0x80 = b + 128"
  using or_push_int [of b 7 1] by simp

lemma and_127_word32: "unat ((w::32 word) AND 0x7f) = unat w mod 128"
proof -
  have "(0x7f::32 word) = mask 7" by (simp add: mask_eq_exp_minus_1)
  then have "w AND 0x7f = take_bit 7 w" by (simp only: take_bit_eq_mask)
  then show ?thesis by (simp add: unsigned_take_bit_eq take_bit_nat_def)
qed

lemma and_127_byte: "uint ((b::byte) AND 0x7f) = uint b mod 128"
proof -
  have "(0x7f::byte) = mask 7" by (simp add: mask_eq_exp_minus_1)
  then have "b AND 0x7f = take_bit 7 b" by (simp only: take_bit_eq_mask)
  then show ?thesis by (simp add: unsigned_take_bit_eq take_bit_int_def)
qed

lemma zigzag_range:
  "- (2 ^ 63) \<le> v \<Longrightarrow> v < 2 ^ 63 \<Longrightarrow> zigzag v = (if 0 \<le> v then 2 * v else - 2 * v - 1)"
proof (cases "0 \<le> v")
  case True
  assume "v < 2 ^ 63"
  with True have "v div 2 ^ 63 = 0" by simp
  with True show ?thesis by (simp add: zigzag_def drop_bit_int_def push_bit_int_def)
next
  case False
  assume "- (2 ^ 63) \<le> v"
  with False have "v div 2 ^ 63 = - 1"
    by (simp add: div_eq_minus1 zdiv_eq_0_iff)
  with False show ?thesis by (simp add: zigzag_def drop_bit_int_def push_bit_int_def not_int_def)
qed


lemma Varint_encodeBigInt_loop_leb128:
  "0 \<le> z \<Longrightarrow> Varint_encodeBigInt_loop z bytes = Some (bytes @ leb128 (nat z))"
proof (induction "nat z" arbitrary: z bytes rule: less_induct)
  case less
  have b: "z AND 0x7f = z mod 128" by (rule and_127_int)
  have d: "drop_bit 7 z = z div 128" by (simp add: drop_bit_int_def)
  show ?case
  proof (cases "z < 128")
    case True
    with less.prems have "z div 128 = 0" "z mod 128 = z" by simp_all
    moreover from True less.prems have "nat z < 128" by simp
    then have "leb128 (nat z) = [of_nat (nat z)]"
      by (subst leb128.simps) simp
    ultimately show ?thesis using less.prems
      by (subst Varint_encodeBigInt_loop.simps) (simp add: b d Let_def)
  next
    case False
    with less.prems have nz: "z div 128 \<noteq> 0" by simp
    have m: "0 \<le> z mod 128" "z mod 128 < 128" by simp_all
    have o: "z mod 128 OR 0x80 = z mod 128 + 128" using or_128_int [OF m] .
    from False less.prems have sm: "nat (z div 128) < nat z" by simp
    from less.prems have ge: "0 \<le> z div 128" by simp
    have ih: "Varint_encodeBigInt_loop (z div 128) bs = Some (bs @ leb128 (nat (z div 128)))" for bs
      using less.hyps [OF sm ge] .
    from False less.prems have "\<not> nat z < 128" by simp
    then have l: "leb128 (nat z) = of_nat (nat z mod 128 + 128) # leb128 (nat z div 128)"
      by (subst leb128.simps) simp
    have n1: "nat z div 128 = nat (z div 128)" using less.prems by (simp add: nat_div_distrib)
    have n2: "(of_int (z mod 128 + 128) :: byte) = of_nat (nat z mod 128 + 128)"
    proof -
      have "z mod 128 + 128 = int (nat z mod 128 + 128)"
        using less.prems by (simp add: zmod_int)
      then show ?thesis by (simp only: of_int_of_nat_eq)
    qed
    have n3: "(of_int (z mod 128) :: byte) = of_nat (nat z mod 128)"
    proof -
      have "z mod 128 = int (nat z mod 128)"
        using less.prems by (simp add: zmod_int)
      then show ?thesis by (simp only: of_int_of_nat_eq)
    qed
    show ?thesis
      using nz by (subst Varint_encodeBigInt_loop.simps) (simp add: b d o Let_def ih l n1 n2 n3)
  qed
qed

lemma Varint_encodeBigInt_total: "Varint_encodeBigInt v = Inr (leb128 (nat (zigzag v)))"
  by (simp add: Varint_encodeBigInt_def Varint_encodeBigInt_loop_leb128 zigzag_nonneg)

lemma Varint_encodeBigInt_zero: "Varint_encodeBigInt 0 = Inr [0x00]"
  by (simp add: Varint_encodeBigInt_total zigzag_def leb128.simps)

lemma leb128_nonempty: "leb128 n \<noteq> []"
  by (subst leb128.simps) simp

text \<open>The value the ZigZag decoder computes from the accumulated unsigned integer.\<close>

lemma unzigzag_zigzag:
  assumes "- (2 ^ 63) \<le> v" "v < 2 ^ 63"
  shows "drop_bit 1 (zigzag v) XOR - (zigzag v AND 1) = v"
proof (cases "0 \<le> v")
  case True
  with assms have "zigzag v = 2 * v" by (simp add: zigzag_range)
  then show ?thesis by (simp add: drop_bit_int_def and_one_eq)
next
  case False
  with assms have z: "zigzag v = - 2 * v - 1" by (simp add: zigzag_range)
  have "(- 2 * v - 1) div 2 = - v - 1" by simp
  moreover have "(- 2 * v - 1) mod 2 = 1" by presburger
  ultimately show ?thesis by (simp add: z drop_bit_int_def and_one_eq not_int_def)
qed

lemma Varint_decodeBigInt_loop_step:
  "offset + br < length buf \<Longrightarrow>
   Varint_decodeBigInt_loop buf offset acc shift br =
     (if uint (buf ! (offset + br)) AND 0x80 = 0
      then Inr (drop_bit 1 (acc OR push_bit shift (uint (buf ! (offset + br)) AND 0x7f)) XOR
                - ((acc OR push_bit shift (uint (buf ! (offset + br)) AND 0x7f)) AND 1), br + 1)
      else Varint_decodeBigInt_loop buf offset
             (acc OR push_bit shift (uint (buf ! (offset + br)) AND 0x7f)) (shift + 7) (br + 1))"
  by (subst Varint_decodeBigInt_loop.simps) (simp add: Let_def)

lemma Varint_decodeBigInt_loop_last:
  assumes "offset + br < length buf" "uint (buf ! (offset + br)) = b" "b < 128" "0 \<le> b"
    "0 \<le> acc" "acc < 2 ^ shift"
  shows "Varint_decodeBigInt_loop buf offset acc shift br =
         Inr (drop_bit 1 (acc + b * 2 ^ shift) XOR - ((acc + b * 2 ^ shift) AND 1), br + 1)"
proof -
  have a: "b AND 0x7f = b" using assms(3,4) by (simp add: and_127_int)
  have "\<not> bit b 7" using assms(3,4) by (simp add: bit_iff_odd)
  then have t: "(b AND 0x80 = 0) = True" using and_exp_eq_0_iff_not_bit [of b 7] by simp
  have o: "acc OR push_bit shift b = acc + b * 2 ^ shift"
    using or_push_int [OF assms(5,6)] by (simp add: push_bit_int_def)
  show ?thesis
    by (simp only: Varint_decodeBigInt_loop_step [OF assms(1)] assms(2) a t o if_True)
qed

lemma Varint_decodeBigInt_loop_more:
  assumes "offset + br < length buf" "uint (buf ! (offset + br)) = b + 128" "b < 128" "0 \<le> b"
    "0 \<le> acc" "acc < 2 ^ shift"
  shows "Varint_decodeBigInt_loop buf offset acc shift br =
         Varint_decodeBigInt_loop buf offset (acc + b * 2 ^ shift) (shift + 7) (br + 1)"
proof -
  have "(b + 128) mod 128 = b" using assms(3,4) by simp
  then have a: "(b + 128) AND 0x7f = b" by (simp only: and_127_int)
  have "bit (b + 128) 7" using assms(3,4) by (simp add: bit_iff_odd)
  then have t: "((b + 128) AND 0x80 = 0) = False"
    using and_exp_eq_0_iff_not_bit [of "b + 128" 7] by simp
  have o: "acc OR push_bit shift b = acc + b * 2 ^ shift"
    using or_push_int [OF assms(5,6)] by (simp add: push_bit_int_def)
  show ?thesis
    by (simp only: Varint_decodeBigInt_loop_step [OF assms(1)] assms(2) a t o if_False)
qed

lemma Varint_decodeBigInt_loop_leb128:
  "length pre = offset + br \<Longrightarrow> 0 \<le> acc \<Longrightarrow> acc < 2 ^ shift \<Longrightarrow>
   Varint_decodeBigInt_loop (pre @ leb128 n @ post) offset acc shift br =
     Inr (drop_bit 1 (acc + int n * 2 ^ shift) XOR - ((acc + int n * 2 ^ shift) AND 1),
          br + length (leb128 n))"
proof (induction n arbitrary: pre acc shift br rule: leb128.induct)
  case (1 n)
  let ?buf = "pre @ leb128 n @ post"
  have inb: "offset + br < length ?buf"
    using "1.prems"(1) leb128_nonempty [of n] by (cases "leb128 n") simp_all
  show ?case
  proof (cases "n < 128")
    case True
    then have l: "leb128 n = [of_nat n]" by (subst leb128.simps) simp
    have nth: "?buf ! (offset + br) = of_nat n" using "1.prems"(1) by (simp add: l nth_append)
    have u: "uint (?buf ! (offset + br)) = int n"
      using True by (simp only: nth) (simp add: uint_nat unat_of_nat)
    have "Varint_decodeBigInt_loop ?buf offset acc shift br =
         Inr (drop_bit 1 (acc + int n * 2 ^ shift) XOR - ((acc + int n * 2 ^ shift) AND 1), br + 1)"
      using True "1.prems" by (intro Varint_decodeBigInt_loop_last [OF inb u]) simp_all
    then show ?thesis by (simp add: l)
  next
    case False
    then have l: "leb128 n = of_nat (n mod 128 + 128) # leb128 (n div 128)"
      by (subst leb128.simps) simp
    have nth: "?buf ! (offset + br) = of_nat (n mod 128 + 128)"
      using "1.prems"(1) by (simp add: l nth_append)
    have "n mod 128 < 128" by simp
    then have "n mod 128 + 128 < 256" by linarith
    then have "(n mod 128 + 128) mod 2 ^ LENGTH(8) = n mod 128 + 128" by simp
    then have "unat (of_nat (n mod 128 + 128) :: byte) = n mod 128 + 128"
      by (simp only: unat_of_nat)
    then have "uint (of_nat (n mod 128 + 128) :: byte) = int (n mod 128 + 128)"
      by (simp only: uint_nat)
    then have u: "uint (?buf ! (offset + br)) = int (n mod 128) + 128"
      by (simp only: nth of_nat_add of_nat_numeral)
    have st: "Varint_decodeBigInt_loop ?buf offset acc shift br =
          Varint_decodeBigInt_loop ?buf offset (acc + int (n mod 128) * 2 ^ shift) (shift + 7) (br + 1)"
      using "1.prems" by (intro Varint_decodeBigInt_loop_more [OF inb u]) simp_all
    have buf: "?buf = (pre @ [of_nat (n mod 128 + 128)]) @ leb128 (n div 128) @ post"
      by (simp add: l)
    have acc: "0 \<le> acc + int (n mod 128) * 2 ^ shift" using "1.prems"(2) by simp
    have "int (n mod 128) \<le> 127" by simp
    then have "int (n mod 128) * 2 ^ shift \<le> 127 * 2 ^ shift" by (intro mult_right_mono) simp_all
    with "1.prems"(3) have "acc + int (n mod 128) * 2 ^ shift < 2 ^ shift + 127 * 2 ^ shift"
      by linarith
    also have "\<dots> = 2 ^ (shift + 7)" by (simp add: power_add)
    finally have acc2: "acc + int (n mod 128) * 2 ^ shift < 2 ^ (shift + 7)" .
    have len: "length (pre @ [of_nat (n mod 128 + 128) :: byte]) = offset + (br + 1)"
      using "1.prems"(1) by simp
    have ih: "Varint_decodeBigInt_loop ((pre @ [of_nat (n mod 128 + 128)]) @ leb128 (n div 128) @ post)
                offset (acc + int (n mod 128) * 2 ^ shift) (shift + 7) (br + 1) =
              Inr (drop_bit 1 (acc + int (n mod 128) * 2 ^ shift + int (n div 128) * 2 ^ (shift + 7)) XOR
                   - ((acc + int (n mod 128) * 2 ^ shift + int (n div 128) * 2 ^ (shift + 7)) AND 1),
                   br + 1 + length (leb128 (n div 128)))"
      using "1.IH" [OF False len acc acc2] .
    have sum: "acc + int (n mod 128) * 2 ^ shift + int (n div 128) * 2 ^ (shift + 7) =
               acc + int n * 2 ^ shift"
    proof -
      have "int n = int (n div 128) * 128 + int (n mod 128)"
        by (metis div_mult_mod_eq of_nat_add of_nat_mult of_nat_numeral)
      then have "int n * 2 ^ shift = int (n div 128) * 128 * 2 ^ shift + int (n mod 128) * 2 ^ shift"
        by (metis distrib_right)
      then show ?thesis by (simp add: power_add)
    qed
    show ?thesis
      by (simp only: st) (simp only: buf ih sum, simp add: l)
  qed
qed

lemma Varint_decodeBigInt_encodeBigInt:
  assumes "- (2 ^ 63) \<le> v" "v < 2 ^ 63"
  shows "Varint_decodeBigInt (pre @ leb128 (nat (zigzag v)) @ post) (length pre) =
         Inr (v, length (leb128 (nat (zigzag v))))"
proof -
  have "Varint_decodeBigInt_loop (pre @ leb128 (nat (zigzag v)) @ post) (length pre) 0 0 0 =
     Inr (drop_bit 1 (0 + int (nat (zigzag v)) * 2 ^ 0) XOR - ((0 + int (nat (zigzag v)) * 2 ^ 0) AND 1),
          0 + length (leb128 (nat (zigzag v))))"
    by (rule Varint_decodeBigInt_loop_leb128) simp_all
  then show ?thesis
    using unzigzag_zigzag [OF assms] zigzag_nonneg [of v] by (simp add: Varint_decodeBigInt_def)
qed

section \<open>Properties of the nullable wrapper: the layout\<close>

text \<open>Integers below \<open>2\<^sup>5\<^sup>3\<close> in absolute value are doubles.\<close>

lemma round_to_double_small: "\<bar>n\<bar> < 2 ^ 53 \<Longrightarrow> round_to_double n = n"
proof -
  assume "\<bar>n\<bar> < 2 ^ 53"
  then have "bitlen \<bar>n\<bar> \<le> 53" by (simp add: bitlen_le_iff_power)
  then show ?thesis by (simp add: round_to_double_def Let_def)
qed

lemma leb128_small: "n < 128 \<Longrightarrow> leb128 n = [of_nat n]"
  by (simp add: leb128.simps)

text \<open>
  An inner codec for the examples: the UUID codec turns every two hexadecimal digits
  into a byte and decodes up to sixteen bytes to one string.
\<close>

lemma UUIDCodec_encode_example:
  "encode UUIDCodec [JStr (ascii ''0a''), JStr (ascii ''ff'')] = Inr [0x0A, 0xFF]"
  by (simp add: UUIDCodec_def UUIDCodec_encode_def remove_hyphens_def hex_digit_value_def ascii_def)

lemma UUIDCodec_decode_example:
  "decode UUIDCodec [0x0A, 0xFF] = Inr [JStr (ascii ''0aff----'')]"
  "decode UUIDCodec [0x0A] = Inr [JStr (ascii ''0a----'')]"
  by (simp_all add: UUIDCodec_def UUIDCodec_decode_def UUIDCodec_decode_loop.simps format_uuid_def
      hex_encode_def hex_digit_def ascii_def)

lemma build_bitmap_example:
  "build_bitmap [JStr (ascii ''0a''), MISSING, JStr (ascii ''ff'')] = [0x05]"
  by (simp add: build_bitmap_def upt_rec)

text \<open>
  Claim C2, as amended. For a column \<open>C\<close> of \<open>n\<close> entries (\<open>n < 2\<^sup>3\<^sup>2\<close>, as for every
  JavaScript array), the wrapped encoding is the row count \<open>n\<close> as a \<open>u32\<close>, little
  endian, then a bitmap of \<open>ceil(n/8)\<close> bytes in which bit \<open>i mod 8\<close> of byte \<open>i div 8\<close> is
  set iff \<open>C[i]\<close> is not \<open>MISSING\<close>, so that the popcount of the bitmap is the number of
  entries that are not \<open>MISSING\<close>, then the inner codec's encoding of those entries; an
  error of the inner codec is the error of the wrapper. When \<open>n\<close> is not zero, decoding
  that header and bitmap with a payload from which the inner codec decodes a number of
  values other than the popcount fails. When \<open>n\<close> is zero, decoding returns the empty
  list whatever follows the header: the inner codec is not run, and a payload that it
  would decode to one value is accepted.
\<close>

theorem NullableCodecWrapper_layout:
  assumes "length C < 2 ^ 32"
  shows
   "(\<forall>payload. encode c (filter (\<lambda>val. val \<noteq> MISSING) C) = Inr payload \<longrightarrow>
        NullableCodecWrapper_encode c C = Inr (le_bytes 4 (length C) @ build_bitmap C @ payload)) \<and>
    (\<forall>e. encode c (filter (\<lambda>val. val \<noteq> MISSING) C) = Inl e \<longrightarrow> NullableCodecWrapper_encode c C = Inl e) \<and>
    le_value (le_bytes 4 (length C)) = length C \<and>
    length (build_bitmap C) = (length C + 7) div 8 \<and>
    (\<forall>i < length C. bit (build_bitmap C ! (i div 8)) (i mod 8) = (C ! i \<noteq> MISSING)) \<and>
    popcount (build_bitmap C) = length (filter (\<lambda>val. val \<noteq> MISSING) C) \<and>
    (\<forall>payload vs. C \<noteq> [] \<longrightarrow> decode c payload = Inr vs \<longrightarrow> length vs \<noteq> popcount (build_bitmap C) \<longrightarrow>
        NullableCodecWrapper_decode c (le_bytes 4 (length C) @ build_bitmap C @ payload) =
          Inl (BitmapMismatch (popcount (build_bitmap C)) (length vs))) \<and>
    (\<forall>payload. C = [] \<longrightarrow>
        NullableCodecWrapper_decode c (le_bytes 4 (length C) @ build_bitmap C @ payload) = Inr [])"
proof (intro conjI allI impI)
  fix payload assume "encode c (filter (\<lambda>val. val \<noteq> MISSING) C) = Inr payload"
  with assms show "NullableCodecWrapper_encode c C = Inr (le_bytes 4 (length C) @ build_bitmap C @ payload)"
    by (simp add: NullableCodecWrapper_encode_def writeUInt32LE_def Let_def del: le_bytes_numeral)
next
  fix e assume "encode c (filter (\<lambda>val. val \<noteq> MISSING) C) = Inl e"
  then show "NullableCodecWrapper_encode c C = Inl e"
    by (simp add: NullableCodecWrapper_encode_def Let_def)
next
  from assms show "le_value (le_bytes 4 (length C)) = length C"
    by (simp add: le_value_le_bytes del: le_bytes_numeral)
next
  show "length (build_bitmap C) = (length C + 7) div 8" by (rule length_build_bitmap)
next
  fix i assume i: "i < length C"
  then have "i div 8 < (length C + 7) div 8" by simp
  from build_bitmap_bit [OF this] i
  show "bit (build_bitmap C ! (i div 8)) (i mod 8) = (C ! i \<noteq> MISSING)"
    by (simp add: bitmap_bit_iff)
next
  show p: "popcount (build_bitmap C) = length (filter (\<lambda>val. val \<noteq> MISSING) C)"
    by (simp only: popcount_build_bitmap count_set_bits_build_bitmap)
next
  fix payload vs
  assume ne: "C \<noteq> []" and d: "decode c payload = Inr vs"
    and l: "length vs \<noteq> popcount (build_bitmap C)"
  from ne have n0: "length C \<noteq> 0" by simp
  have "NullableCodecWrapper_decode c (le_bytes 4 (length C) @ build_bitmap C @ payload) =
         bindE (decode c payload) (\<lambda>decodedNonNulls.
           if count_set_bits (build_bitmap C) (length C) \<noteq> length decodedNonNulls
           then Inl (BitmapMismatch (count_set_bits (build_bitmap C) (length C)) (length decodedNonNulls))
           else Inr (interleave (build_bitmap C) decodedNonNulls (length C)))"
    by (rule NullableCodecWrapper_decode_layout [OF assms n0 length_build_bitmap])
  with d l show "NullableCodecWrapper_decode c (le_bytes 4 (length C) @ build_bitmap C @ payload) =
          Inl (BitmapMismatch (popcount (build_bitmap C)) (length vs))"
    by (simp add: popcount_build_bitmap del: le_bytes_numeral)
next
  fix payload assume "C = []"
  then show "NullableCodecWrapper_decode c (le_bytes 4 (length C) @ build_bitmap C @ payload) = Inr []"
    by (simp add: NullableCodecWrapper_decode_def readUInt32LE_def le_value_le_bytes del: le_bytes_numeral)
qed

theorem NullableCodecWrapper_layout_witness:
  "NullableCodecWrapper_encode UUIDCodec [JStr (ascii ''0a''), MISSING, JStr (ascii ''ff'')] =
     Inr [0x03, 0x00, 0x00, 0x00, 0x05, 0x0A, 0xFF] \<and>
   popcount [0x05] = 2 \<and>
   NullableCodecWrapper_decode UUIDCodec [0x03, 0x00, 0x00, 0x00, 0x05, 0x0A, 0xFF] =
     Inl (BitmapMismatch 2 1)"
proof -
  let ?C = "[JStr (ascii ''0a''), MISSING, JStr (ascii ''ff'')]"
  let ?c = "UUIDCodec"
  have len: "length ?C < 2 ^ 32" by simp
  note t = NullableCodecWrapper_layout [OF len, of ?c]
  have e: "encode ?c (filter (\<lambda>val. val \<noteq> MISSING) ?C) = Inr [0x0A, 0xFF]"
    using UUIDCodec_encode_example by simp
  have d: "decode ?c [0x0A, 0xFF] = Inr [JStr (ascii ''0aff----'')]"
    by (rule UUIDCodec_decode_example)
  from t have "NullableCodecWrapper_encode ?c ?C =
                 Inr (le_bytes 4 (length ?C) @ build_bitmap ?C @ [0x0A, 0xFF])"
    using e by blast
  then have a: "NullableCodecWrapper_encode ?c ?C = Inr [0x03, 0x00, 0x00, 0x00, 0x05, 0x0A, 0xFF]"
    by (simp add: build_bitmap_example)
  from t have "popcount (build_bitmap ?C) = length (filter (\<lambda>val. val \<noteq> MISSING) ?C)" by blast
  then have b: "popcount [0x05] = 2" by (simp add: build_bitmap_example)
  from t have "?C \<noteq> [] \<longrightarrow> decode ?c [0x0A, 0xFF] = Inr [JStr (ascii ''0aff----'')] \<longrightarrow>
      length [JStr (ascii ''0aff----'')] \<noteq> popcount (build_bitmap ?C) \<longrightarrow>
      NullableCodecWrapper_decode ?c (le_bytes 4 (length ?C) @ build_bitmap ?C @ [0x0A, 0xFF]) =
        Inl (BitmapMismatch (popcount (build_bitmap ?C)) (length [JStr (ascii ''0aff----'')]))"
    by blast
  with d b have c: "NullableCodecWrapper_decode ?c [0x03, 0x00, 0x00, 0x00, 0x05, 0x0A, 0xFF] =
     Inl (BitmapMismatch 2 1)"
    by (simp add: build_bitmap_example)
  from a b c show ?thesis by (intro conjI)
qed

theorem NullableCodecWrapper_decode_zero_rows_counterexample:
  "decode UUIDCodec [0x0A] = Inr [JStr (ascii ''0a----'')] \<and>
   build_bitmap [] = [] \<and> popcount [] = 0 \<and>
   NullableCodecWrapper_decode UUIDCodec [0x00, 0x00, 0x00, 0x00, 0x0A] = Inr []"
  by (simp add: UUIDCodec_decode_example build_bitmap_def popcount_def
      NullableCodecWrapper_decode_def readUInt32LE_def le_value.simps)

section \<open>Properties of the UUID codec\<close>

text \<open>
  A canonical UUID string: 36 characters, hyphens at the positions 8, 13, 18 and 23,
  hexadecimal digits of either case elsewhere. On such a string \<open>toLowerCase\<close> changes
  the letters \<open>A\<close> to \<open>F\<close> only.
\<close>

definition is_hex :: "16 word \<Rightarrow> bool" where
  "is_hex c = ((0x30 \<le> c \<and> c \<le> 0x39) \<or> (0x41 \<le> c \<and> c \<le> 0x46) \<or> (0x61 \<le> c \<and> c \<le> 0x66))"

definition is_canonical_uuid :: "jsstring \<Rightarrow> bool" where
  "is_canonical_uuid u =
     (length u = 36 \<and>
      list_all (\<lambda>i. if i = 8 \<or> i = 13 \<or> i = 18 \<or> i = 23 then u ! i = 0x2D else is_hex (u ! i)) [0..<36])"

definition lower :: "16 word \<Rightarrow> 16 word" where
  "lower c = (if 0x41 \<le> c \<and> c \<le> 0x5A then c + 0x20 else c)"

definition lowercase :: "jsstring \<Rightarrow> jsstring" where
  "lowercase s = map lower s"

lemma hex_digit_value_lower:
  assumes "is_hex c"
  shows "\<exists>v. hex_digit_value c = Some v \<and> v < 16 \<and> hex_digit v = lower c"
proof -
  have c: "of_nat (unat c) = c" by simp
  from assms consider "0x30 \<le> c \<and> c \<le> 0x39" | "0x41 \<le> c \<and> c \<le> 0x46" | "0x61 \<le> c \<and> c \<le> 0x66"
    by (auto simp add: is_hex_def)
  then show ?thesis
  proof cases
    case 1
    then have r: "48 \<le> unat c" "unat c \<le> 57" by (simp_all add: word_le_nat_alt)
    then have "of_nat (48 + (unat c - 48)) = (of_nat (unat c) :: 16 word)" by simp
    moreover from r have "unat c - 48 < 10" by simp
    ultimately show ?thesis using 1 r
      by (simp add: hex_digit_value_def hex_digit_def lower_def word_le_nat_alt)
  next
    case 2
    then have r: "65 \<le> unat c" "unat c \<le> 70" by (simp_all add: word_le_nat_alt)
    then have "97 + (unat c - 65 + 10 - 10) = unat c + 32" by simp
    then have "(of_nat (97 + (unat c - 65 + 10 - 10)) :: 16 word) = of_nat (unat c) + 32"
      by (simp only: of_nat_add) simp
    moreover from r have "unat c - 65 + 10 < 16" "\<not> unat c - 65 + 10 < 10" by simp_all
    ultimately show ?thesis using 2 r
      by (simp add: hex_digit_value_def hex_digit_def lower_def word_le_nat_alt)
  next
    case 3
    then have r: "97 \<le> unat c" "unat c \<le> 102" by (simp_all add: word_le_nat_alt)
    then have "97 + (unat c - 97 + 10 - 10) = unat c" by simp
    then have "(of_nat (97 + (unat c - 97 + 10 - 10)) :: 16 word) = of_nat (unat c)"
      by (simp only:)
    moreover from r have "unat c - 97 + 10 < 16" "\<not> unat c - 97 + 10 < 10" by simp_all
    ultimately show ?thesis using 3 r
      by (simp add: hex_digit_value_def hex_digit_def lower_def word_le_nat_alt)
  qed
qed

lemma hex_pair:
  assumes "is_hex a" "is_hex b"
  shows "\<exists>byte. hex_decode (a # b # rest) = byte # hex_decode rest \<and>
                hex_encode [byte] = [lower a, lower b]"
proof -
  from hex_digit_value_lower [OF assms(1)] obtain h where
    h: "hex_digit_value a = Some h" "h < 16" "hex_digit h = lower a" by blast
  from hex_digit_value_lower [OF assms(2)] obtain l where
    l: "hex_digit_value b = Some l" "l < 16" "hex_digit l = lower b" by blast
  from h(2) l(2) have "16 * h + l < 256" by simp
  then have u: "unat (of_nat (16 * h + l) :: byte) = 16 * h + l"
    by (simp only: unat_of_nat) simp
  from l(2) have "(16 * h + l) div 16 = h" "(16 * h + l) mod 16 = l" by simp_all
  with u h l show ?thesis by (simp add: hex_encode_def)
qed

lemma hex_encode_Cons: "hex_encode (b # bs) = hex_encode [b] @ hex_encode bs"
  by (simp add: hex_encode_def)

lemma hex_round_trip:
  "list_all is_hex s \<Longrightarrow> even (length s) \<Longrightarrow>
   hex_encode (hex_decode s) = map lower s \<and> 2 * length (hex_decode s) = length s"
proof (induction s rule: hex_decode.induct)
  case (1 a b rest)
  then have ab: "is_hex a" "is_hex b" and r: "list_all is_hex rest" "even (length rest)"
    by simp_all
  from hex_pair [OF ab, of rest] obtain byte where
    byte: "hex_decode (a # b # rest) = byte # hex_decode rest" "hex_encode [byte] = [lower a, lower b]"
    by blast
  have ih: "hex_encode (hex_decode rest) = map lower rest \<and> 2 * length (hex_decode rest) = length rest"
  proof -
    from hex_digit_value_lower [OF ab(1)] obtain h where h: "hex_digit_value a = Some h" by blast
    from hex_digit_value_lower [OF ab(2)] obtain l where l: "hex_digit_value b = Some l" by blast
    show ?thesis by (rule "1.IH" [OF refl h l r])
  qed
  have "hex_encode (byte # hex_decode rest) = hex_encode [byte] @ hex_encode (hex_decode rest)"
    by (rule hex_encode_Cons)
  with byte ih show ?case by simp
qed (simp_all add: hex_encode_def)


lemma UUIDCodec_decode_loop_single:
  "0 < length buffer \<Longrightarrow> length buffer \<le> 16 \<Longrightarrow>
   UUIDCodec_decode_loop buffer 0 [] = [JStr (format_uuid (hex_encode buffer))]"
  by (simp add: UUIDCodec_decode_loop.simps [of buffer 0] UUIDCodec_decode_loop.simps [of buffer 16])

lemma is_hex_not_hyphen: "is_hex c \<Longrightarrow> c \<noteq> 0x2D"
  by (auto simp add: is_hex_def)

lemma lower_hyphen: "lower 0x2D = 0x2D"
  by (simp add: lower_def)

lemma remove_hyphens_hex: "list_all is_hex s \<Longrightarrow> remove_hyphens s = s"
  by (induction s) (simp_all add: remove_hyphens_def is_hex_not_hyphen)

lemma remove_hyphens_append: "remove_hyphens (s @ t) = remove_hyphens s @ remove_hyphens t"
  by (simp add: remove_hyphens_def)

lemma remove_hyphens_hyphen: "remove_hyphens (0x2D # s) = remove_hyphens s"
  by (simp add: remove_hyphens_def)

text \<open>The five groups of digits of a canonical UUID.\<close>

lemma canonical_uuid_groups:
  assumes "is_canonical_uuid u"
  obtains a b c d e where
    "u = a @ 0x2D # b @ 0x2D # c @ 0x2D # d @ 0x2D # e"
    "length a = 8" "length b = 4" "length c = 4" "length d = 4" "length e = 12"
    "list_all is_hex a" "list_all is_hex b" "list_all is_hex c" "list_all is_hex d"
    "list_all is_hex e"
proof -
  from assms have len: "length u = 36"
    and at: "\<And>i. i < 36 \<Longrightarrow>
               (if i = 8 \<or> i = 13 \<or> i = 18 \<or> i = 23 then u ! i = 0x2D else is_hex (u ! i))"
    by (simp_all add: is_canonical_uuid_def list_all_iff)
  let ?a = "take 8 u" and ?b = "take 4 (drop 9 u)" and ?c = "take 4 (drop 14 u)"
  let ?d = "take 4 (drop 19 u)" and ?e = "drop 24 u"
  have h: "u ! 8 = 0x2D" "u ! 13 = 0x2D" "u ! 18 = 0x2D" "u ! 23 = 0x2D"
    using at [of 8] at [of 13] at [of 18] at [of 23] by simp_all
  have "u = ?a @ 0x2D # ?b @ 0x2D # ?c @ 0x2D # ?d @ 0x2D # ?e"
  proof (rule nth_equalityI)
    show "length u = length (?a @ 0x2D # ?b @ 0x2D # ?c @ 0x2D # ?d @ 0x2D # ?e)"
      using len by simp
  next
    fix i assume "i < length u"
    with len have i: "i < 36" by simp
    consider "i < 8" | "i = 8" | "8 < i \<and> i < 13" | "i = 13" | "13 < i \<and> i < 18" | "i = 18"
      | "18 < i \<and> i < 23" | "i = 23" | "23 < i" by linarith
    then show "u ! i = (?a @ 0x2D # ?b @ 0x2D # ?c @ 0x2D # ?d @ 0x2D # ?e) ! i"
    proof cases
      case 1 then show ?thesis using len by (simp add: nth_append)
    next
      case 2 then show ?thesis using len h by (simp add: nth_append)
    next
      case 3 then show ?thesis using len by (auto simp add: nth_append nth_Cons')
    next
      case 4 then show ?thesis using len h by (auto simp add: nth_append nth_Cons')
    next
      case 5 then show ?thesis using len by (auto simp add: nth_append nth_Cons')
    next
      case 6 then show ?thesis using len h by (auto simp add: nth_append nth_Cons')
    next
      case 7 then show ?thesis using len by (auto simp add: nth_append nth_Cons')
    next
      case 8 then show ?thesis using len h by (auto simp add: nth_append nth_Cons')
    next
      case 9 then show ?thesis using len i by (auto simp add: nth_append nth_Cons')
    qed
  qed
  moreover have "length ?a = 8" "length ?b = 4" "length ?c = 4" "length ?d = 4" "length ?e = 12"
    using len by simp_all
  moreover have "list_all is_hex ?a"
    unfolding list_all_length
  proof (intro allI impI)
    fix n assume "n < length ?a"
    with len have n: "n < 8" by simp
    with at [of n] show "is_hex (?a ! n)" by simp
  qed
  moreover have "list_all is_hex ?b"
    unfolding list_all_length
  proof (intro allI impI)
    fix n assume "n < length ?b"
    with len have n: "n < 4" by simp
    with at [of "9 + n"] len show "is_hex (?b ! n)" by simp
  qed
  moreover have "list_all is_hex ?c"
    unfolding list_all_length
  proof (intro allI impI)
    fix n assume "n < length ?c"
    with len have n: "n < 4" by simp
    with at [of "14 + n"] len show "is_hex (?c ! n)" by simp
  qed
  moreover have "list_all is_hex ?d"
    unfolding list_all_length
  proof (intro allI impI)
    fix n assume "n < length ?d"
    with len have n: "n < 4" by simp
    with at [of "19 + n"] len show "is_hex (?d ! n)" by simp
  qed
  moreover have "list_all is_hex ?e"
    unfolding list_all_length
  proof (intro allI impI)
    fix n assume "n < length ?e"
    with len have n: "n < 12" by simp
    with at [of "24 + n"] len show "is_hex (?e ! n)" by simp
  qed
  ultimately show thesis by (rule that)
qed

lemma UUIDCodec_round_trip_lowercase:
  assumes "is_canonical_uuid u"
  shows "bindE (encode UUIDCodec [JStr u]) (decode UUIDCodec) = Inr [JStr (lowercase u)]"
proof -
  from assms obtain a b c d e where
    u: "u = a @ 0x2D # b @ 0x2D # c @ 0x2D # d @ 0x2D # e"
    and l: "length a = 8" "length b = 4" "length c = 4" "length d = 4" "length e = 12"
    and x: "list_all is_hex a" "list_all is_hex b" "list_all is_hex c" "list_all is_hex d"
      "list_all is_hex e"
    by (rule canonical_uuid_groups)
  let ?h = "a @ b @ c @ d @ e"
  have rh: "remove_hyphens u = ?h"
    by (simp add: u remove_hyphens_append remove_hyphens_hyphen remove_hyphens_hex x)
  have hx: "list_all is_hex ?h" using x by simp
  have ev: "even (length ?h)" using l by simp
  from hex_round_trip [OF hx ev]
  have rt: "hex_encode (hex_decode ?h) = map lower ?h" and ln: "2 * length (hex_decode ?h) = length ?h"
    by simp_all
  from ln l have len16: "length (hex_decode ?h) = 16" by simp
  have enc: "encode UUIDCodec [JStr u] = Inr (hex_decode ?h)"
    by (simp add: UUIDCodec_def UUIDCodec_encode_def rh)
  have "UUIDCodec_decode_loop (hex_decode ?h) 0 [] = [JStr (format_uuid (hex_encode (hex_decode ?h)))]"
    by (rule UUIDCodec_decode_loop_single) (simp_all add: len16)
  then have dec: "decode UUIDCodec (hex_decode ?h) = Inr [JStr (format_uuid (map lower ?h))]"
    by (simp add: UUIDCodec_def UUIDCodec_decode_def rt)
  have "format_uuid (map lower ?h) = map lower u"
    using l by (simp add: format_uuid_def u lower_hyphen)
  with enc dec show ?thesis by (simp add: lowercase_def)
qed


lemma lower_fixed: "(lower c = c) = (\<not> (0x41 \<le> c \<and> c \<le> 0x5A))"
  by (simp add: lower_def)

text \<open>
  Claim C10. For a canonical 36-character hyphenated UUID string \<open>u\<close>, with hexadecimal
  digits of either case, decoding the encoding of the column \<open>[u]\<close> returns
  \<open>[lowercase(u)]\<close>; so the round trip returns \<open>[u]\<close> exactly when \<open>u\<close> has no uppercase
  digit.
\<close>

theorem UUIDCodec_round_trip:
  "is_canonical_uuid u \<longrightarrow>
     bindE (encode UUIDCodec [JStr u]) (decode UUIDCodec) = Inr [JStr (lowercase u)] \<and>
     (bindE (encode UUIDCodec [JStr u]) (decode UUIDCodec) = Inr [JStr u]) =
       list_all (\<lambda>c. \<not> (0x41 \<le> c \<and> c \<le> 0x5A)) u"
proof
  assume "is_canonical_uuid u"
  then have r: "bindE (encode UUIDCodec [JStr u]) (decode UUIDCodec) = Inr [JStr (lowercase u)]"
    by (rule UUIDCodec_round_trip_lowercase)
  have "(map lower u = map id u) = (\<forall>c \<in> set u. lower c = id c)" by (rule map_eq_conv)
  then have "(lowercase u = u) = list_all (\<lambda>c. \<not> (0x41 \<le> c \<and> c \<le> 0x5A)) u"
    by (simp add: lowercase_def lower_fixed list_all_iff)
  with r show "bindE (encode UUIDCodec [JStr u]) (decode UUIDCodec) = Inr [JStr (lowercase u)] \<and>
     (bindE (encode UUIDCodec [JStr u]) (decode UUIDCodec) = Inr [JStr u]) =
       list_all (\<lambda>c. \<not> (0x41 \<le> c \<and> c \<le> 0x5A)) u"
    by auto
qed

lemma example_uuid_canonical:
  "is_canonical_uuid (ascii ''550E8400-e29b-41D4-a716-446655440000'')"
  by (simp add: is_canonical_uuid_def ascii_def is_hex_def upt_rec)

lemma example_uuid_lowercase:
  "lowercase (ascii ''550E8400-e29b-41D4-a716-446655440000'') =
   ascii ''550e8400-e29b-41d4-a716-446655440000''"
  by (simp add: lowercase_def lower_def ascii_def)

theorem UUIDCodec_round_trip_witness:
  "bindE (encode UUIDCodec [JStr (ascii ''550E8400-e29b-41D4-a716-446655440000'')]) (decode UUIDCodec) =
     Inr [JStr (ascii ''550e8400-e29b-41d4-a716-446655440000'')]"
  using UUIDCodec_round_trip [of "ascii ''550E8400-e29b-41D4-a716-446655440000''"]
  by (simp only: example_uuid_canonical example_uuid_lowercase simp_thms)

section \<open>Properties of the timestamp codec: layout and round trip\<close>

definition delta_bytes :: "int \<Rightarrow> int \<Rightarrow> buffer" where
  "delta_bytes base t = leb128 (nat (zigzag (t - base)))"

lemma readBigInt64LE_writeBigInt64LE:
  assumes "- (2 ^ 63) \<le> v" "v < 2 ^ 63"
  shows "writeBigInt64LE v = Inr (le_bytes 8 (nat (v mod 2 ^ 64)))"
    and "readBigInt64LE (le_bytes 8 (nat (v mod 2 ^ 64)) @ rest) 0 = Inr v"
proof -
  from assms show "writeBigInt64LE v = Inr (le_bytes 8 (nat (v mod 2 ^ 64)))"
    by (simp add: writeBigInt64LE_def del: le_bytes_numeral)
  have m: "nat (v mod 2 ^ 64) < 2 ^ 64"
    by (simp add: nat_less_iff)
  from m have "nat (v mod 2 ^ 64) mod 256 ^ 8 = nat (v mod 2 ^ 64)" by simp
  then have lv: "le_value (le_bytes 8 (nat (v mod 2 ^ 64))) = nat (v mod 2 ^ 64)"
    by (simp only: le_value_le_bytes)
  have u: "int (nat (v mod 2 ^ 64)) = v mod 2 ^ 64" by simp
  have r: "(if v mod 2 ^ 64 < 2 ^ 63 then v mod 2 ^ 64 else v mod 2 ^ 64 - 2 ^ 64) = v"
  proof (cases "0 \<le> v")
    case True
    with assms have "v mod 2 ^ 64 = v" by simp
    with assms show ?thesis by simp
  next
    case False
    with assms have "(v + 2 ^ 64) mod 2 ^ 64 = v + 2 ^ 64" by (intro mod_pos_pos_trivial) simp_all
    then have "v mod 2 ^ 64 = v + 2 ^ 64" by simp
    with assms False show ?thesis by simp
  qed
  have len: "(0 + 8 \<le> length (le_bytes 8 (nat (v mod 2 ^ 64)) @ rest)) = True"
    by (simp del: le_bytes_numeral)
  have tk: "take 8 (drop 0 (le_bytes 8 (nat (v mod 2 ^ 64)) @ rest)) = le_bytes 8 (nat (v mod 2 ^ 64))"
    by (simp del: le_bytes_numeral)
  show "readBigInt64LE (le_bytes 8 (nat (v mod 2 ^ 64)) @ rest) 0 = Inr v"
    by (simp only: readBigInt64LE_def len if_True tk lv u Let_def r)
qed

lemma TimestampCodec_decode_loop_deltas:
  assumes "\<forall>d \<in> set ds. - (2 ^ 63) \<le> d \<and> d < 2 ^ 63"
  shows "TimestampCodec_decode_loop b (pre @ concat (map (\<lambda>d. leb128 (nat (zigzag d))) ds)) (length pre) acc =
         Inr (acc @ map (\<lambda>d. round_to_double (b + round_to_double d)) ds)"
  using assms
proof (induction ds arbitrary: pre acc)
  case Nil
  show ?case by (simp add: TimestampCodec_decode_loop.simps)
next
  case (Cons d ds)
  let ?e = "leb128 (nat (zigzag d))"
  let ?post = "concat (map (\<lambda>d. leb128 (nat (zigzag d))) ds)"
  let ?buf = "pre @ concat (map (\<lambda>d. leb128 (nat (zigzag d))) (d # ds))"
  from Cons.prems have d: "- (2 ^ 63) \<le> d" "d < 2 ^ 63"
    and ds: "\<forall>d \<in> set ds. - (2 ^ 63) \<le> d \<and> d < 2 ^ 63" by simp_all
  have buf: "?buf = pre @ ?e @ ?post" by simp
  have buf2: "?buf = (pre @ ?e) @ ?post" by simp
  have ne: "?e \<noteq> []" by (rule leb128_nonempty)
  then have lt: "length pre < length ?buf" by (simp add: buf)
  have dec: "Varint_decodeBigInt ?buf (length pre) = Inr (d, length ?e)"
    unfolding buf by (rule Varint_decodeBigInt_encodeBigInt [OF d])
  have "TimestampCodec_decode_loop b ?buf (length pre) acc =
        TimestampCodec_decode_loop b ?buf (length pre + length ?e)
          (acc @ [round_to_double (b + round_to_double d)])"
    using lt dec by (subst TimestampCodec_decode_loop.simps) simp
  also have "\<dots> = TimestampCodec_decode_loop b ((pre @ ?e) @ ?post) (length (pre @ ?e))
          (acc @ [round_to_double (b + round_to_double d)])"
    by (simp only: buf2 length_append)
  also have "\<dots> = Inr ((acc @ [round_to_double (b + round_to_double d)]) @
                      map (\<lambda>d. round_to_double (b + round_to_double d)) ds)"
    by (rule Cons.IH [OF ds])
  finally show ?case by simp
qed


lemma mapE_map: "mapE f (map h xs) = mapE (\<lambda>x. f (h x)) xs"
  by (induction xs) simp_all

text \<open>
  The layout: the first epoch as a signed 64-bit integer, little endian, then the
  ZigZag varint of every epoch's difference from the first, the first included.
\<close>

lemma TimestampCodec_encode_layout:
  assumes ne: "T \<noteq> []"
    and parse: "map (Date_parse rt) T = map Some ts"
    and valid: "\<forall>t \<in> set ts. \<bar>t\<bar> \<le> 8640000000000000"
  shows "TimestampCodec_encode rt (map Some T) =
           Inr (le_bytes 8 (nat (hd ts mod 2 ^ 64)) @ concat (map (delta_bytes (hd ts)) ts))"
proof -
  from parse have "length T = length ts" by (metis length_map)
  with ne have tne: "ts \<noteq> []" by auto
  have tm: "map (getTime rt) (map Some T) = map Some ts"
    using parse by (simp add: getTime_def comp_def)
  from tne have h0: "map Some ts ! 0 = Some (hd ts)" by (simp add: hd_conv_nth)
  from tne valid have "\<bar>hd ts\<bar> \<le> 8640000000000000" by simp
  then have rng: "- (2 ^ 63) \<le> hd ts" "hd ts < 2 ^ 63" by simp_all
  have w: "writeBigInt64LE (hd ts) = Inr (le_bytes 8 (nat (hd ts mod 2 ^ 64)))"
    by (rule readBigInt64LE_writeBigInt64LE(1) [OF rng])
  have d: "mapE (\<lambda>t. bindE (BigInt_of_time t) (\<lambda>b. Inr (b - hd ts))) (map Some ts) =
           Inr (map (\<lambda>t. t - hd ts) ts)"
    by (simp add: mapE_map BigInt_of_time_def)
  have v: "mapE Varint_encodeBigInt (map (\<lambda>t. t - hd ts) ts) = Inr (map (delta_bytes (hd ts)) ts)"
    by (simp add: mapE_map Varint_encodeBigInt_total delta_bytes_def)
  from tne have e: "(map Some ts = []) = False" by simp
  have b0: "BigInt_of_time (Some (hd ts)) = Inr (hd ts)" by (simp add: BigInt_of_time_def)
  show ?thesis
    by (simp only: TimestampCodec_encode_def tm Let_def e if_False h0 b0 bindE.simps d w v)
qed

lemma delta_bytes_self: "delta_bytes base base = [0x00]"
  by (simp add: delta_bytes_def zigzag_range leb128.simps)

text \<open>
  Decoding: every value is \<open>base + Number(delta)\<close>, a sum of doubles. It is the epoch
  that was encoded when the difference from the first epoch is below \<open>2\<^sup>5\<^sup>3\<close> in
  absolute value.
\<close>

lemma TimestampCodec_decode_encoded:
  assumes valid: "\<forall>t \<in> set ts. \<bar>t\<bar> \<le> 8640000000000000" and b: "\<bar>base\<bar> \<le> 8640000000000000"
  shows "TimestampCodec_decode_loop (round_to_double base)
           (le_bytes 8 (nat (base mod 2 ^ 64)) @ concat (map (delta_bytes base) ts)) 8 [] =
         Inr (map (\<lambda>t. round_to_double (base + round_to_double (t - base))) ts)"
proof -
  let ?pre = "le_bytes 8 (nat (base mod 2 ^ 64))"
  let ?ds = "map (\<lambda>t. t - base) ts"
  have rb: "round_to_double base = base" using b by (intro round_to_double_small) simp
  have "\<forall>d \<in> set ?ds. - (2 ^ 63) \<le> d \<and> d < 2 ^ 63"
  proof
    fix d assume "d \<in> set ?ds"
    then obtain t where t: "t \<in> set ts" "d = t - base" by auto
    with valid have "\<bar>t\<bar> \<le> 8640000000000000" by simp
    with b t show "- (2 ^ 63) \<le> d \<and> d < 2 ^ 63" by (simp add: abs_le_iff)
  qed
  from TimestampCodec_decode_loop_deltas [OF this, of base ?pre "[]"]
  have "TimestampCodec_decode_loop base (?pre @ concat (map (\<lambda>d. leb128 (nat (zigzag d))) ?ds)) (length ?pre) [] =
        Inr ([] @ map (\<lambda>d. round_to_double (base + round_to_double d)) ?ds)" .
  moreover have "length ?pre = 8" by (rule length_le_bytes)
  moreover have "map (\<lambda>d. leb128 (nat (zigzag d))) ?ds = map (delta_bytes base) ts"
    by (simp add: delta_bytes_def comp_def)
  moreover have "map (\<lambda>d. round_to_double (base + round_to_double d)) ?ds =
                 map (\<lambda>t. round_to_double (base + round_to_double (t - base))) ts"
    by (simp add: comp_def)
  ultimately show ?thesis by (simp only: rb append_Nil)
qed

lemma TimestampCodec_decode_values:
  assumes valid: "\<forall>t \<in> set ts. \<bar>t\<bar> \<le> 8640000000000000" and b: "\<bar>base\<bar> \<le> 8640000000000000"
  shows "TimestampCodec_decode rt
           (le_bytes 8 (nat (base mod 2 ^ 64)) @ concat (map (delta_bytes base) ts)) =
         mapE (toISOString rt) (map (\<lambda>t. round_to_double (base + round_to_double (t - base))) ts)"
proof -
  let ?pre = "le_bytes 8 (nat (base mod 2 ^ 64))"
  let ?buf = "?pre @ concat (map (delta_bytes base) ts)"
  from b have rng: "- (2 ^ 63) \<le> base" "base < 2 ^ 63" by simp_all
  have l: "(length ?buf < 8) = False" by (simp del: le_bytes_numeral)
  have r: "readBigInt64LE ?buf 0 = Inr base"
    by (rule readBigInt64LE_writeBigInt64LE(2) [OF rng])
  show ?thesis
    by (simp only: TimestampCodec_decode_def l if_False r bindE.simps
        TimestampCodec_decode_encoded [OF valid b])
qed

lemma TimestampCodec_round_trip_near:
  assumes ne: "T \<noteq> []"
    and parse: "map (Date_parse rt) T = map Some ts"
    and valid: "\<forall>t \<in> set ts. \<bar>t\<bar> \<le> 8640000000000000"
    and near: "\<forall>t \<in> set ts. \<bar>t - hd ts\<bar> < 2 ^ 53"
  shows "bindE (TimestampCodec_encode rt (map Some T)) (TimestampCodec_decode rt) =
         Inr (map (\<lambda>t. JStr (Date_toISOString rt t)) ts)"
proof -
  from parse have "length T = length ts" by (metis length_map)
  with ne have tne: "ts \<noteq> []" by auto
  with valid have b: "\<bar>hd ts\<bar> \<le> 8640000000000000" by simp
  have "mapE (toISOString rt) (map (\<lambda>t. round_to_double (hd ts + round_to_double (t - hd ts))) ts) =
        Inr (map (\<lambda>t. JStr (Date_toISOString rt t)) ts)"
    unfolding mapE_map
  proof (rule mapE_Inr)
    fix t assume t: "t \<in> set ts"
    with near have "round_to_double (t - hd ts) = t - hd ts" by (intro round_to_double_small) simp
    moreover from t valid have v: "\<bar>t\<bar> \<le> 8640000000000000" by simp
    then have "round_to_double t = t" by (intro round_to_double_small) simp
    ultimately show "toISOString rt (round_to_double (hd ts + round_to_double (t - hd ts))) =
                     Inr (JStr (Date_toISOString rt t))"
      using v by (simp add: toISOString_def)
  qed
  then show ?thesis
    by (simp only: TimestampCodec_encode_layout [OF ne parse valid] bindE.simps
        TimestampCodec_decode_values [OF valid b])
qed


text \<open>\<open>Number(17279999999999999n)\<close>: between \<open>2\<^sup>5\<^sup>3\<close> and \<open>2\<^sup>5\<^sup>4\<close> the doubles are the even integers.\<close>

lemma round_to_double_far: "round_to_double 17279999999999999 = 17280000000000000"
proof -
  have "bitlen (17279999999999999 :: int) \<le> 54" by (simp add: bitlen_le_iff_power)
  moreover have "\<not> bitlen (17279999999999999 :: int) \<le> 53" by (simp add: bitlen_le_iff_power)
  ultimately have "bitlen (17279999999999999 :: int) = 54" by simp
  then show ?thesis by (simp add: round_to_double_def Let_def)
qed

lemma far_bytes:
  "le_bytes 8 (nat (- 8640000000000000 mod 2 ^ 64)) = [0x00, 0x00, 0x24, 0x3D, 0xF7, 0x4D, 0xE1, 0xFF]"
  "delta_bytes (- 8640000000000000) (- 8640000000000000) = [0x00]"
  "delta_bytes (- 8640000000000000) 8639999999999999 =
     [0xFE, 0xFF, 0xBF, 0xDB, 0xB0, 0x84, 0xB2, 0x3D]"
  by (simp_all add: delta_bytes_def zigzag_range leb128.simps)

lemma far_parse:
  "map (Date_parse far_runtime)
     [ascii ''-271821-04-20T00:00:00.000Z'', ascii ''+275760-09-12T23:59:59.999Z''] =
   map Some [- 8640000000000000, 8639999999999999]"
  by (simp add: far_runtime_def far_Date_parse_def ascii_def)

text \<open>
  Claim C7 fails on the code for two dates more than \<open>2\<^sup>5\<^sup>3\<close> milliseconds apart. The
  layout is as the claim says, but \<open>decode\<close> converts the delta to a double before it
  adds the base: the column of the first millisecond of the range of dates and the
  last but one decodes to the first and the last, one millisecond late.
\<close>

theorem TimestampCodec_round_trip_one_millisecond_late:
  "TimestampCodec_encode far_runtime
     [Some (ascii ''-271821-04-20T00:00:00.000Z''), Some (ascii ''+275760-09-12T23:59:59.999Z'')] =
     Inr [0x00, 0x00, 0x24, 0x3D, 0xF7, 0x4D, 0xE1, 0xFF, 0x00,
          0xFE, 0xFF, 0xBF, 0xDB, 0xB0, 0x84, 0xB2, 0x3D] \<and>
   TimestampCodec_decode far_runtime
     [0x00, 0x00, 0x24, 0x3D, 0xF7, 0x4D, 0xE1, 0xFF, 0x00,
      0xFE, 0xFF, 0xBF, 0xDB, 0xB0, 0x84, 0xB2, 0x3D] =
     Inr [JStr (ascii ''-271821-04-20T00:00:00.000Z''), JStr (ascii ''+275760-09-13T00:00:00.000Z'')] \<and>
   Date_parse far_runtime (ascii ''+275760-09-12T23:59:59.999Z'') = Some 8639999999999999 \<and>
   Date_parse far_runtime (ascii ''+275760-09-13T00:00:00.000Z'') = Some 8640000000000000"
proof -
  let ?T = "[ascii ''-271821-04-20T00:00:00.000Z'', ascii ''+275760-09-12T23:59:59.999Z'']"
  let ?ts = "[- 8640000000000000, 8639999999999999 :: int]"
  let ?bytes = "[0x00, 0x00, 0x24, 0x3D, 0xF7, 0x4D, 0xE1, 0xFF, 0x00,
                 0xFE, 0xFF, 0xBF, 0xDB, 0xB0, 0x84, 0xB2, 0x3D :: byte]"
  have valid: "\<forall>t \<in> set ?ts. \<bar>t\<bar> \<le> 8640000000000000" by simp
  have b: "\<bar>- 8640000000000000 :: int\<bar> \<le> 8640000000000000" by simp
  have cat: "le_bytes 8 (nat (- 8640000000000000 mod 2 ^ 64)) @
             concat (map (delta_bytes (- 8640000000000000)) ?ts) = ?bytes"
    by (simp only: list.map concat.simps far_bytes append.simps)
  have "TimestampCodec_encode far_runtime (map Some ?T) =
          Inr (le_bytes 8 (nat (hd ?ts mod 2 ^ 64)) @ concat (map (delta_bytes (hd ?ts)) ?ts))"
    by (rule TimestampCodec_encode_layout [OF _ far_parse valid]) simp
  then have enc: "TimestampCodec_encode far_runtime (map Some ?T) = Inr ?bytes"
    by (simp only: list.sel cat)
  have r: "map (\<lambda>t. round_to_double (- 8640000000000000 + round_to_double (t - - 8640000000000000))) ?ts =
           [- 8640000000000000, 8640000000000000]"
    by (simp add: round_to_double_far round_to_double_small)
  have "TimestampCodec_decode far_runtime
          (le_bytes 8 (nat (- 8640000000000000 mod 2 ^ 64)) @
           concat (map (delta_bytes (- 8640000000000000)) ?ts)) =
        mapE (toISOString far_runtime)
          (map (\<lambda>t. round_to_double (- 8640000000000000 + round_to_double (t - - 8640000000000000))) ?ts)"
    by (rule TimestampCodec_decode_values [OF valid b])
  then have "TimestampCodec_decode far_runtime ?bytes =
        mapE (toISOString far_runtime) [- 8640000000000000, 8640000000000000]"
    by (simp only: cat r)
  then have dec: "TimestampCodec_decode far_runtime ?bytes =
     Inr [JStr (ascii ''-271821-04-20T00:00:00.000Z''), JStr (ascii ''+275760-09-13T00:00:00.000Z'')]"
    by (simp add: toISOString_def far_runtime_def far_Date_toISOString_def)
  have p: "Date_parse far_runtime (ascii ''+275760-09-12T23:59:59.999Z'') = Some 8639999999999999"
    "Date_parse far_runtime (ascii ''+275760-09-13T00:00:00.000Z'') = Some 8640000000000000"
    by (simp_all add: far_runtime_def far_Date_parse_def ascii_def)
  from enc dec p show ?thesis by simp
qed

section \<open>Properties of the number codec: the three modes\<close>

text \<open>
  The words of the specification. A product \<open>v\<cdot>10\<^sup>s\<close> is the double that the program
  computes, \<open>float_mul\<close> of the runtime; it is near an integer when it is finite and
  differs from its rounding by less than \<open>10\<^sup>-\<^sup>9\<close>; a scale fits a column when the
  product of every value is near an integer.
\<close>

definition near_integer :: "jsnum \<Rightarrow> bool" where
  "near_integer y = (case y of Fin x \<Rightarrow> \<bar>x - of_int \<lfloor>x + 1 / 2\<rfloor>\<bar> < 1 / 10 ^ 9 | _ \<Rightarrow> False)"

definition rounded :: "jsnum \<Rightarrow> int" where
  "rounded y = (case y of Fin x \<Rightarrow> \<lfloor>x + 1 / 2\<rfloor> | _ \<Rightarrow> 0)"

definition fits_scale :: "runtime \<Rightarrow> rat list \<Rightarrow> nat \<Rightarrow> bool" where
  "fits_scale rt vs s = list_all (\<lambda>v. near_integer (float_mul rt v (10 ^ s))) vs"

definition zigzag_varint :: "int \<Rightarrow> buffer" where
  "zigzag_varint n = leb128 (nat (zigzag n))"

lemma isFixedPoint_near_integer:
  "isFixedPoint rt m (Some (Fin v)) = near_integer (float_mul rt v m)"
  by (simp add: isFixedPoint_def times_def near_integer_def Math_round_def split: jsnum.splits)

lemma list_all_isFixedPoint:
  "list_all (isFixedPoint rt (10 ^ s)) (map (\<lambda>v. Some (Fin v)) vs) = fits_scale rt vs s"
  by (simp add: fits_scale_def list_all_iff isFixedPoint_near_integer)

lemma find_smallest_scale:
  assumes "1 \<le> s" "s \<le> 6" "P s" "\<forall>s'. 1 \<le> s' \<and> s' < s \<longrightarrow> \<not> P s'"
  shows "find P [1..<7] = Some s"
proof -
  have "\<exists>i<length [1..<7]. P ([1..<7] ! i) \<and> s = [1..<7] ! i \<and> (\<forall>j<i. \<not> P ([1..<7] ! j))"
  proof (intro exI conjI allI impI)
    from assms show "s - 1 < length [1..<7]" by simp
    from assms show "P ([1..<7] ! (s - 1))" by simp
    from assms show "s = [1..<7] ! (s - 1)" by simp
  next
    fix j assume j: "j < s - 1"
    with assms have "[1..<7] ! j = 1 + j" by simp
    moreover from j assms have "\<not> P (1 + j)" by simp
    ultimately show "\<not> P ([1..<7] ! j)" by simp
  qed
  then show ?thesis by (simp only: find_Some_iff)
qed

lemma find_no_scale:
  assumes "\<forall>s. 1 \<le> s \<and> s \<le> 6 \<longrightarrow> \<not> P s"
  shows "find P [1..<7] = None"
  using assms by (simp add: find_None_iff)

lemma encode_integers:
  assumes "\<forall>v \<in> set vs. v = of_int \<lfloor>v\<rfloor>"
  shows "mapE (\<lambda>n. bindE (BigInt n) Varint_encodeBigInt) (map (\<lambda>v. Some (Fin v)) vs) =
         Inr (map (\<lambda>v. zigzag_varint \<lfloor>v\<rfloor>) vs)"
  unfolding mapE_map
proof (rule mapE_Inr)
  fix v assume "v \<in> set vs"
  with assms have "v = of_int \<lfloor>v\<rfloor>" by simp
  then show "bindE (BigInt (Some (Fin v))) Varint_encodeBigInt = Inr (zigzag_varint \<lfloor>v\<rfloor>)"
    by (simp add: BigInt_def Varint_encodeBigInt_total zigzag_varint_def)
qed

lemma encode_scaled:
  assumes "fits_scale rt vs s"
  shows "mapE (\<lambda>n. bindE (BigInt (Some (round_scaled rt (10 ^ s) n))) Varint_encodeBigInt)
           (map (\<lambda>v. Some (Fin v)) vs) =
         Inr (map (\<lambda>v. zigzag_varint (rounded (float_mul rt v (10 ^ s)))) vs)"
  unfolding mapE_map
proof (rule mapE_Inr)
  fix v assume "v \<in> set vs"
  with assms have "near_integer (float_mul rt v (10 ^ s))"
    by (simp add: fits_scale_def list_all_iff)
  then obtain x where x: "float_mul rt v (10 ^ s) = Fin x"
    by (cases "float_mul rt v (10 ^ s)") (simp_all add: near_integer_def)
  then show "bindE (BigInt (Some (round_scaled rt (10 ^ s) (Some (Fin v))))) Varint_encodeBigInt =
             Inr (zigzag_varint (rounded (float_mul rt v (10 ^ s))))"
    by (simp add: round_scaled_def times_def Math_round_def BigInt_def rounded_def
        Varint_encodeBigInt_total zigzag_varint_def)
qed

text \<open>
  Claim C3. For a non-empty column of finite numbers: the output starts with \<open>0x01\<close>
  exactly when every value is an integer, and then continues with the ZigZag varint of
  every value; otherwise, when a scale from 1 to 6 fits, it is \<open>0x02\<close>, the smallest
  such scale, and the ZigZag varints of the rounded products; otherwise it is \<open>0x00\<close>
  and the eight bytes of every value as a little-endian double.
\<close>

theorem NumberCodec_encode_modes:
  assumes "vs \<noteq> []"
  shows
   "((\<exists>body. NumberCodec_encode rt (map (\<lambda>v. Some (Fin v)) vs) = Inr (0x01 # body)) =
       (\<forall>v \<in> set vs. v = of_int \<lfloor>v\<rfloor>)) \<and>
    ((\<forall>v \<in> set vs. v = of_int \<lfloor>v\<rfloor>) \<longrightarrow>
       NumberCodec_encode rt (map (\<lambda>v. Some (Fin v)) vs) =
         Inr (0x01 # concat (map (\<lambda>v. zigzag_varint \<lfloor>v\<rfloor>) vs))) \<and>
    (\<forall>s. \<not> (\<forall>v \<in> set vs. v = of_int \<lfloor>v\<rfloor>) \<and> 1 \<le> s \<and> s \<le> 6 \<and> fits_scale rt vs s \<and>
         (\<forall>s'. 1 \<le> s' \<and> s' < s \<longrightarrow> \<not> fits_scale rt vs s') \<longrightarrow>
       NumberCodec_encode rt (map (\<lambda>v. Some (Fin v)) vs) =
         Inr (0x02 # of_nat s #
              concat (map (\<lambda>v. zigzag_varint (rounded (float_mul rt v (10 ^ s)))) vs))) \<and>
    (\<not> (\<forall>v \<in> set vs. v = of_int \<lfloor>v\<rfloor>) \<and> (\<forall>s. 1 \<le> s \<and> s \<le> 6 \<longrightarrow> \<not> fits_scale rt vs s) \<longrightarrow>
       NumberCodec_encode rt (map (\<lambda>v. Some (Fin v)) vs) =
         Inr (0x00 # concat (map (\<lambda>v. le_bytes 8 (unat (double_bits rt (Fin v)))) vs)))"
proof -
  let ?nums = "map (\<lambda>v. Some (Fin v)) vs"
  let ?int = "\<forall>v \<in> set vs. v = of_int \<lfloor>v\<rfloor>"
  from assms have ne: "(?nums = []) = False" by simp
  have ai: "list_all (\<lambda>n. case n of None \<Rightarrow> False | Some x \<Rightarrow> Number_isInteger x) ?nums = ?int"
    by (simp add: list_all_iff Number_isInteger_def)
  have i: "NumberCodec_encode rt ?nums = Inr (0x01 # concat (map (\<lambda>v. zigzag_varint \<lfloor>v\<rfloor>) vs))"
    if "?int"
  proof -
    from that have t: "?int = True" by simp
    from that show ?thesis
      by (simp only: NumberCodec_encode_def ne if_False ai t if_True encode_integers bindE.simps)
  qed
  have d: "NumberCodec_encode rt ?nums =
         Inr (0x02 # of_nat s # concat (map (\<lambda>v. zigzag_varint (rounded (float_mul rt v (10 ^ s)))) vs))"
    if "\<not> ?int" "1 \<le> s" "s \<le> 6" "fits_scale rt vs s"
      "\<forall>s'. 1 \<le> s' \<and> s' < s \<longrightarrow> \<not> fits_scale rt vs s'" for s
  proof -
    have fs: "find (\<lambda>scale. fits_scale rt vs scale) [1..<7] = Some s"
      by (rule find_smallest_scale) (use that in simp_all)
    from that(1) have t: "?int = False" by simp
    from that(4) show ?thesis
      by (simp only: NumberCodec_encode_def ne if_False ai t list_all_isFixedPoint fs option.case
          encode_scaled bindE.simps)
  qed
  have f: "NumberCodec_encode rt ?nums =
         Inr (0x00 # concat (map (\<lambda>v. le_bytes 8 (unat (double_bits rt (Fin v)))) vs))"
    if "\<not> ?int" "\<forall>s. 1 \<le> s \<and> s \<le> 6 \<longrightarrow> \<not> fits_scale rt vs s"
  proof -
    have fs: "find (\<lambda>scale. fits_scale rt vs scale) [1..<7] = None"
      by (rule find_no_scale) (use that in simp)
    have w: "map (writeDoubleLE rt) ?nums = map (\<lambda>v. le_bytes 8 (unat (double_bits rt (Fin v)))) vs"
      by (simp add: writeDoubleLE_def del: le_bytes_numeral)
    from that(1) have t: "?int = False" by simp
    show ?thesis
      by (simp only: NumberCodec_encode_def ne if_False ai t list_all_isFixedPoint fs option.case w)
  qed
  have m: "(\<exists>body. NumberCodec_encode rt ?nums = Inr (0x01 # body)) = ?int"
  proof (cases ?int)
    case True
    with i show ?thesis by simp
  next
    case False
    show ?thesis
    proof (cases "\<exists>s. 1 \<le> s \<and> s \<le> 6 \<and> fits_scale rt vs s")
      case True
      define s where "s = (LEAST s. 1 \<le> s \<and> s \<le> 6 \<and> fits_scale rt vs s)"
      from True have p: "1 \<le> s \<and> s \<le> 6 \<and> fits_scale rt vs s"
        unfolding s_def by (rule LeastI_ex)
      have "\<not> fits_scale rt vs s'" if "1 \<le> s'" "s' < s" for s'
      proof
        assume "fits_scale rt vs s'"
        with that p have "1 \<le> s' \<and> s' \<le> 6 \<and> fits_scale rt vs s'" by simp
        then have "s \<le> s'" unfolding s_def by (rule Least_le)
        with that show False by simp
      qed
      with d [of s] False p show ?thesis by simp
    next
      case nf: False
      with f False show ?thesis by simp
    qed
  qed
  from m i d f show ?thesis by blast
qed


lemma example_zigzag_varints:
  "zigzag_varint 150 = [0xAC, 0x02]" "zigzag_varint 225 = [0xC2, 0x03]"
  "zigzag_varint 300 = [0xD8, 0x04]"
  by (simp_all add: zigzag_varint_def zigzag_range leb128.simps)

lemma rounded_of_int: "rounded (Fin (of_int n)) = n" "near_integer (Fin (of_int n))"
proof -
  have "\<lfloor>(of_int n :: rat) + 1 / 2\<rfloor> = n" by (rule floor_unique) simp_all
  then show "rounded (Fin (of_int n)) = n" "near_integer (Fin (of_int n))"
    by (simp_all add: rounded_def near_integer_def)
qed

lemma example_float_mul: "float_mul example_runtime a b = Fin (a * b)"
  by (simp add: example_runtime_def)

theorem NumberCodec_encode_modes_witness:
  "NumberCodec_encode example_runtime [Some (Fin (3 / 2)), Some (Fin (9 / 4)), Some (Fin 3)] =
     Inr [0x02, 0x02, 0xAC, 0x02, 0xC2, 0x03, 0xD8, 0x04] \<and>
   [0xAC, 0x02, 0xC2, 0x03, 0xD8, 0x04] = zigzag_varint 150 @ zigzag_varint 225 @ zigzag_varint 300"
proof -
  let ?vs = "[3 / 2, 9 / 4, 3 :: rat]"
  have ne: "?vs \<noteq> []" by simp
  note t = NumberCodec_encode_modes [OF ne, of example_runtime]
  have "\<lfloor>3 / 2 :: rat\<rfloor> = 1" by (rule floor_unique) simp_all
  then have ni: "\<not> (\<forall>v \<in> set ?vs. v = of_int \<lfloor>v\<rfloor>)" by simp
  have n: "near_integer (Fin 150)" "near_integer (Fin 225)" "near_integer (Fin 300)"
    using rounded_of_int(2) [of 150] rounded_of_int(2) [of 225] rounded_of_int(2) [of 300]
    by simp_all
  have r: "rounded (Fin 150) = 150" "rounded (Fin 225) = 225" "rounded (Fin 300) = 300"
    using rounded_of_int(1) [of 150] rounded_of_int(1) [of 225] rounded_of_int(1) [of 300]
    by simp_all
  have f2: "fits_scale example_runtime ?vs 2"
    by (simp add: fits_scale_def example_float_mul n)
  have "\<not> near_integer (Fin (45 / 2))" by (simp add: near_integer_def)
  then have f1: "\<not> fits_scale example_runtime ?vs 1"
    by (simp add: fits_scale_def example_float_mul)
  have sm: "\<forall>s'. 1 \<le> s' \<and> s' < (2::nat) \<longrightarrow> \<not> fits_scale example_runtime ?vs s'"
  proof (intro allI impI)
    fix s' :: nat assume "1 \<le> s' \<and> s' < 2"
    then have "s' = 1" by simp
    with f1 show "\<not> fits_scale example_runtime ?vs s'" by simp
  qed
  note c = t [THEN conjunct2, THEN conjunct2, THEN conjunct1, THEN spec, of 2]
  have pre: "\<not> (\<forall>v \<in> set ?vs. v = of_int \<lfloor>v\<rfloor>) \<and> 1 \<le> (2::nat) \<and> (2::nat) \<le> 6 \<and>
             fits_scale example_runtime ?vs 2 \<and>
             (\<forall>s'. 1 \<le> s' \<and> s' < 2 \<longrightarrow> \<not> fits_scale example_runtime ?vs s')"
    by (intro conjI ni f2 sm) simp_all
  have "NumberCodec_encode example_runtime (map (\<lambda>v. Some (Fin v)) ?vs) =
         Inr (0x02 # of_nat 2 #
              concat (map (\<lambda>v. zigzag_varint (rounded (float_mul example_runtime v (10 ^ 2)))) ?vs))"
    by (rule mp [OF c pre])
  then have a: "NumberCodec_encode example_runtime [Some (Fin (3 / 2)), Some (Fin (9 / 4)), Some (Fin 3)] =
     Inr [0x02, 0x02, 0xAC, 0x02, 0xC2, 0x03, 0xD8, 0x04]"
    by (simp add: example_float_mul r example_zigzag_varints)
  have b: "[0xAC, 0x02, 0xC2, 0x03, 0xD8, 0x04] = zigzag_varint 150 @ zigzag_varint 225 @ zigzag_varint 300"
    by (simp add: example_zigzag_varints)
  from a b show ?thesis by (intro conjI)
qed

end
